theory Spec2Isabelle
  imports Main
begin

section \<open>Strings and numbers as the JavaScript code uses them\<close>

text \<open>
  Titles, seeds and identifiers are JavaScript strings. They are modelled as HOL strings,
  that is as sequences of code units below 256. Numbers are the non-negative integers the
  code computes with (\<open>parseInt\<close> of a digit run, incremented by one at a time); they are
  modelled as \<open>nat\<close>. JavaScript numbers are doubles: they are these integers, and their
  sums, differences and decimal digits are exact, as long as every value is at most
  \<open>2 ^ 53\<close>; beyond, \<open>parseInt\<close> rounds and adding one may leave a number as it is. The
  model is the code within that range, and the statements on numbers keep to it.
\<close>

definition is_digit :: "char \<Rightarrow> bool" where
  \<comment> \<open>the class \<open>\d\<close>: the ten ASCII digits\<close>
  "is_digit c = (48 \<le> (of_char c :: nat) \<and> (of_char c :: nat) \<le> 57)"

definition is_letter :: "char \<Rightarrow> bool" where
  \<comment> \<open>the class \<open>[A-Za-z]\<close>\<close>
  "is_letter c = ((65 \<le> (of_char c :: nat) \<and> (of_char c :: nat) \<le> 90)
                \<or> (97 \<le> (of_char c :: nat) \<and> (of_char c :: nat) \<le> 122))"

definition is_line_terminator :: "char \<Rightarrow> bool" where
  \<comment> \<open>line feed and carriage return (the two line terminators below 256)\<close>
  "is_line_terminator c = ((of_char c :: nat) = 10 \<or> (of_char c :: nat) = 13)"

definition is_space :: "char \<Rightarrow> bool" where
  \<comment> \<open>the class \<open>\s\<close>, which is also what \<open>trim\<close> removes: tab, line feed, vertical tab,
      form feed, carriage return, space, no-break space\<close>
  "is_space c = ((of_char c :: nat) \<in> {9, 10, 11, 12, 13, 32, 160})"

definition trim :: "string \<Rightarrow> string" where
  \<comment> \<open>\<open>String.prototype.trim\<close>\<close>
  "trim s = rev (dropWhile is_space (rev (dropWhile is_space s)))"

definition digit_char :: "nat \<Rightarrow> char" where
  "digit_char d = char_of (48 + d)"

definition digit_val :: "char \<Rightarrow> nat" where
  "digit_val c = of_char c - 48"

fun toString :: "nat \<Rightarrow> string" where
  \<comment> \<open>\<open>Number.prototype.toString\<close> on a non-negative integer: its decimal digits\<close>
  "toString n = (if n < 10 then [digit_char n] else toString (n div 10) @ [digit_char (n mod 10)])"

declare toString.simps [simp del]

definition padStart :: "nat \<Rightarrow> char \<Rightarrow> string \<Rightarrow> string" where
  \<comment> \<open>\<open>s.padStart(w, c)\<close>: pads on the left up to length \<open>w\<close>, never truncates\<close>
  "padStart w c s = replicate (w - length s) c @ s"

definition parseInt :: "string \<Rightarrow> nat" where
  \<comment> \<open>\<open>parseInt(s, 10)\<close> on a string of digits, exact up to \<open>2 ^ 53\<close> (so for every run of
      at most 15 digits)\<close>
  "parseInt s = foldl (\<lambda>n c. 10 * n + digit_val c) 0 s"


section \<open>Regular expressions\<close>

text \<open>
  Every pattern of the code is anchored at the start (\<open>^\<close>) and is a sequence of
  single-character atoms, each under one quantifier. The matcher below is the
  backtracking search of a JavaScript \<open>RegExp\<close> on such a pattern: for every piece it
  tries the admissible repetition counts in the quantifier's order of preference
  (greedy: longest first, lazy: shortest first) and keeps the first count for which the
  rest of the pattern matches. It returns the text consumed by every piece; \<open>dollar\<close>
  says whether the pattern ends in \<open>$\<close>.
\<close>

datatype atom = Chr char | Digit | Space | Letter | Dot

fun accepts :: "atom \<Rightarrow> char \<Rightarrow> bool" where
  "accepts (Chr c) x = (x = c)"
| "accepts Digit x = is_digit x"
| "accepts Space x = is_space x"
| "accepts Letter x = is_letter x"
| "accepts Dot x = (\<not> is_line_terminator x)"

datatype quant = Once | Times nat | Star | Plus | LazyStar

fun counts :: "quant \<Rightarrow> nat \<Rightarrow> nat list" where
  \<comment> \<open>the repetition counts to try, in order, when at most \<open>m\<close> characters are accepted\<close>
  "counts Once m = (if 1 \<le> m then [1] else [])"
| "counts (Times n) m = (if n \<le> m then [n] else [])"
| "counts Star m = rev [0..<Suc m]"
| "counts Plus m = rev [1..<Suc m]"
| "counts LazyStar m = [0..<Suc m]"

primrec first_some :: "'a option list \<Rightarrow> 'a option" where
  "first_some [] = None"
| "first_some (x # xs) = (case x of Some y \<Rightarrow> Some y | None \<Rightarrow> first_some xs)"

type_synonym regex = "(atom \<times> quant) list"

fun rmatch :: "regex \<Rightarrow> bool \<Rightarrow> string \<Rightarrow> string list option" where
  "rmatch [] dollar s = (if dollar \<and> s \<noteq> [] then None else Some [])"
| "rmatch ((a, q) # ps) dollar s =
     first_some (map (\<lambda>k. map_option ((#) (take k s)) (rmatch ps dollar (drop k s)))
                     (counts q (length (takeWhile (accepts a) s))))"

definition lit :: "string \<Rightarrow> regex" where
  \<comment> \<open>a run of literal characters\<close>
  "lit p = map (\<lambda>c. (Chr c, Once)) p"

definition plain :: "string \<Rightarrow> bool" where
  \<comment> \<open>no character of the string has a special meaning in a pattern: none of
      \<^verbatim>\<open>$ ( ) * + . ? [ \ ] ^ { | }\<close>\<close>
  "plain p = (\<forall>c \<in> set p. (of_char c :: nat) \<notin> {36, 40, 41, 42, 43, 46, 63, 91, 92, 93, 94, 123, 124, 125})"


section \<open>Seed identifiers\<close>

datatype error = InvalidSeedFormat | InvalidStartIndex

definition parseBaseId :: "string \<Rightarrow> error + (string \<times> nat \<times> nat)" where
  \<comment> \<open>add: \<open>baseId.match(/^([A-Za-z]*)(\d+)$/)\<close>, giving prefix, baseNumber, numberLength\<close>
  "parseBaseId baseId =
     (case rmatch [(Letter, Star), (Digit, Plus)] True baseId of
        None \<Rightarrow> Inl InvalidSeedFormat
      | Some m \<Rightarrow> Inr (m ! 0, parseInt (m ! 1), length (m ! 1)))"

definition getIdPrefix :: "string \<Rightarrow> error + (string \<times> nat)" where
  \<comment> \<open>compare: \<open>baseId.match(/^(.*?)(\d+)$/)\<close>, giving prefix and padding\<close>
  "getIdPrefix baseId =
     (case rmatch [(Dot, LazyStar), (Digit, Plus)] True baseId of
        None \<Rightarrow> Inl InvalidSeedFormat
      | Some m \<Rightarrow> Inr (m ! 0, length (m ! 1)))"


section \<open>Syntax trees\<close>

text \<open>
  A source file is read through the parser, visited, and printed back. The model starts
  from the parsed tree and takes the printed text of a tree to parse back to that tree.
  Only the node kinds the visitors inspect are told apart; the children of a node are
  listed in the order the visitor traverses them. The parser is Babel's, which gives a
  string literal the type \<open>StringLiteral\<close>; the type \<open>Literal\<close>, which the visitors test
  for as well, does not occur in its trees.
  \<^item> \<open>StringLiteral v\<close> has the field \<open>value = v\<close>;
  \<^item> \<open>OtherLiteral b\<close> is a numeric, boolean or big-integer literal, a leaf whose \<open>value\<close>
    is not a string; \<open>b\<close> says whether that value is truthy;
  \<^item> \<open>TemplateLiteral q es\<close> has \<open>quasis[0].value.raw = q\<close> and \<open>expressions = es\<close>; it has
    no field \<open>value\<close>;
  \<^item> \<open>CallExpression callee arguments\<close>;
  \<^item> \<open>Other children\<close> is any other node; it has no field \<open>value\<close>.
\<close>

datatype node =
    Identifier string
  | MemberExpression node node
  | StringLiteral string
  | OtherLiteral bool
  | TemplateLiteral string "node list"
  | CallExpression node "node list"
  | Other "node list"

type_synonym files = "(string \<times> node) list"
  \<comment> \<open>the files the glob returns, in that order, each path once, with their parsed content\<close>


section \<open>The add command\<close>

text \<open>
  \<open>src/commands/add.js\<close> holds two versions of the command. The one modelled here is the
  first: its seed is letters followed by digits, its test declarations are the calls of
  the bare names \<open>it\<close> and \<open>test\<close>, and it stops when the scan shows a duplicate. \<open>main\<close> is
  taken from the point where the configuration is resolved: its arguments are the
  \<open>baseId\<close>, the overwrite flag and the files the glob returns.
\<close>

record config =
  prefix :: string
  baseNumber :: nat
  numberLength :: nat
  overwriteExistingIds :: bool

definition idRegex :: "string \<Rightarrow> nat \<Rightarrow> regex" where
  \<comment> \<open>\<^verbatim>\<open>^(${config.prefix})(\d{${config.numberLength}}):\s*\<close>; the prefix consists of
      letters, which stand for themselves\<close>
  "idRegex p n = lit p @ [(Digit, Times n), (Chr CHR '':'', Once), (Space, Star)]"

definition replace_match :: "string list option \<Rightarrow> string \<Rightarrow> string" where
  \<comment> \<open>\<open>title.replace(idRegex, '')\<close>, given the result of matching the title\<close>
  "replace_match m title = (case m of None \<Rightarrow> title | Some ps \<Rightarrow> drop (length (concat ps)) title)"

fun isTest :: "node \<Rightarrow> bool" where
  "isTest (Identifier name) = (name = ''it'' \<or> name = ''test'')"
| "isTest _ = False"

fun scan_title :: "node \<Rightarrow> string" where
  \<comment> \<open>the title read by the scan: empty unless the first argument is an eligible literal\<close>
  "scan_title (TemplateLiteral q es) = (if es = [] then q else [])"
| "scan_title (StringLiteral v) = v"
| "scan_title _ = []"

fun literal_title :: "node \<Rightarrow> string option" where
  \<comment> \<open>the title read by the rewrite; \<open>None\<close> where the visitor returns \<open>false\<close>\<close>
  "literal_title (TemplateLiteral q es) = (if es = [] then Some q else None)"
| "literal_title (StringLiteral v) = Some v"
| "literal_title _ = None"

type_synonym occurrence = "string \<times> string \<times> string"
  \<comment> \<open>id, title, file\<close>

definition found :: "config \<Rightarrow> string \<Rightarrow> string \<Rightarrow> occurrence list" where
  "found c filePath title =
     (case rmatch (idRegex (prefix c) (numberLength c)) False title of
        None \<Rightarrow> []
      | Some m \<Rightarrow> [(concat (take (Suc (length (prefix c))) m), title, filePath)])"

fun parse_node :: "config \<Rightarrow> string \<Rightarrow> node \<Rightarrow> occurrence list"
  and parse_nodes :: "config \<Rightarrow> string \<Rightarrow> node list \<Rightarrow> occurrence list" where
  "parse_node c f (CallExpression callee args) =
     (if isTest callee then
        (case args of
           [] \<Rightarrow> []
         | firstArg # rest \<Rightarrow>
             found c f (scan_title firstArg) @ parse_node c f callee @ parse_nodes c f args)
      else parse_node c f callee @ parse_nodes c f args)"
| "parse_node c f (MemberExpression obj prop) = parse_node c f obj @ parse_node c f prop"
| "parse_node c f (TemplateLiteral q es) = parse_nodes c f es"
| "parse_node c f (Other ns) = parse_nodes c f ns"
| "parse_node c f (Identifier name) = []"
| "parse_node c f (StringLiteral v) = []"
| "parse_node c f (OtherLiteral b) = []"
| "parse_nodes c f [] = []"
| "parse_nodes c f (n # ns) = parse_node c f n @ parse_nodes c f ns"

definition parseTestIdsFromFile :: "config \<Rightarrow> string \<times> node \<Rightarrow> occurrence list" where
  "parseTestIdsFromFile c file = parse_node c (fst file) (snd file)"


subsection \<open>Allocation\<close>

definition formatId :: "string \<Rightarrow> nat \<Rightarrow> nat \<Rightarrow> string" where
  \<comment> \<open>\<^verbatim>\<open>`${config.prefix}${newBase.toString().padStart(config.numberLength, '0')}`\<close>\<close>
  "formatId p w n = p @ padStart w CHR ''0'' (toString n)"

lemma digit_val_digit_char: "d < 10 \<Longrightarrow> digit_val (digit_char d) = d"
  by (simp add: digit_val_def digit_char_def)

lemma parseInt_snoc: "parseInt (xs @ [c]) = 10 * parseInt xs + digit_val c"
  by (simp add: parseInt_def)

lemma parseInt_toString: "parseInt (toString n) = n"
proof (induction n rule: toString.induct)
  case (1 n)
  show ?case
  proof (cases "n < 10")
    case True
    then show ?thesis
      by (simp add: toString.simps [of n] parseInt_def digit_val_digit_char)
  next
    case False
    with 1 show ?thesis
      by (simp add: toString.simps [of n] parseInt_snoc digit_val_digit_char)
  qed
qed

lemma parseInt_zeros: "parseInt (replicate k CHR ''0'' @ s) = parseInt s"
proof -
  have "foldl (\<lambda>n c. 10 * n + digit_val c) 0 (replicate k CHR ''0'') = 0"
    by (induction k) (simp_all add: digit_val_def)
  then show ?thesis by (simp add: parseInt_def)
qed

lemma parseInt_padStart: "parseInt (padStart w CHR ''0'' (toString n)) = n"
  by (simp add: padStart_def parseInt_zeros parseInt_toString)

lemma formatId_inj: "formatId p w m = formatId p w n \<Longrightarrow> m = n"
  by (metis formatId_def parseInt_padStart same_append_eq)

lemma finite_formatted: "finite {k. formatId p w k \<in> set used}"
proof -
  have "inj (formatId p w)" by (rule injI) (rule formatId_inj)
  then have "finite (formatId p w -` set used)" by (simp add: finite_vimageI)
  then show ?thesis by (simp add: vimage_def)
qed

text \<open>
  The loop \<^verbatim>\<open>do { nextId = ...; newBase++ } while (usedIds.has(nextId))\<close>. The set of used
  identifiers is a JavaScript \<open>Set\<close>, modelled as the list of its elements in insertion
  order. The loop ends because the identifiers of different numbers differ and the set is
  finite. This is the loop of the code as long as \<open>newBase\<close> is at most \<open>2 ^ 53\<close>, where
  \<open>newBase++\<close> adds one; the section on allocation shows, from a bound on the seed and on
  the size of the files, that a run stays within that range.
\<close>

function next_free :: "string \<Rightarrow> nat \<Rightarrow> string list \<Rightarrow> nat \<Rightarrow> string \<times> nat" where
  "next_free p w used newBase =
     (let nextId = formatId p w newBase
      in if nextId \<in> set used then next_free p w used (Suc newBase) else (nextId, Suc newBase))"
  by pat_completeness auto
termination
proof (relation "measure (\<lambda>(p, w, used, n). card {k. n \<le> k \<and> formatId p w k \<in> set used})")
  show "wf (measure (\<lambda>(p, w, used, n). card {k. n \<le> k \<and> formatId p w k \<in> set used}))"
    by simp
next
  fix p w used newBase x
  assume x: "x = formatId p w newBase" and "x \<in> set used"
  then have mem: "formatId p w newBase \<in> set used" by simp
  have fin: "finite {k. newBase \<le> k \<and> formatId p w k \<in> set used}"
    by (rule finite_subset [OF _ finite_formatted [of p w used]]) auto
  have "newBase \<in> {k. newBase \<le> k \<and> formatId p w k \<in> set used}"
    and "newBase \<notin> {k. Suc newBase \<le> k \<and> formatId p w k \<in> set used}"
    using mem by simp_all
  moreover have "{k. Suc newBase \<le> k \<and> formatId p w k \<in> set used}
          \<subseteq> {k. newBase \<le> k \<and> formatId p w k \<in> set used}"
    by auto
  ultimately have "{k. Suc newBase \<le> k \<and> formatId p w k \<in> set used}
          \<subset> {k. newBase \<le> k \<and> formatId p w k \<in> set used}"
    by blast
  then have "card {k. Suc newBase \<le> k \<and> formatId p w k \<in> set used}
               < card {k. newBase \<le> k \<and> formatId p w k \<in> set used}"
    by (rule psubset_card_mono [OF fin])
  then show "((p, w, used, Suc newBase), (p, w, used, newBase))
       \<in> measure (\<lambda>(p, w, used, n). card {k. n \<le> k \<and> formatId p w k \<in> set used})"
    by simp
qed

declare next_free.simps [simp del]

definition Set_add :: "string \<Rightarrow> string list \<Rightarrow> string list" where
  \<comment> \<open>\<open>usedIds.add(x)\<close>\<close>
  "Set_add x xs = (if x \<in> set xs then xs else xs @ [x])"

text \<open>
  The state of the rewrite: the set \<open>usedIds\<close> and the variables \<open>localInc\<close> and
  \<open>fileChanged\<close> of \<open>transformFile\<close>. The field \<open>history\<close> is no variable of the code: it
  records every execution of the allocation branch, in order, with the value of \<open>newBase\<close>
  before the loop (\<open>baseNumber + localInc\<close>), the set \<open>usedIds\<close> at that point, the
  identifier \<open>nextId\<close> the loop ends with and the value of \<open>newBase\<close> after the loop. No
  function reads it; the statements on the allocation cursor are made on it.
\<close>

record allocation =
  first_candidate :: nat
  used_before :: "string list"
  allocated :: string
  cursor_after :: nat

record walk =
  usedIds :: "string list"
  localInc :: nat
  fileChanged :: bool
  history :: "allocation list"

definition visit_title :: "config \<Rightarrow> nat \<Rightarrow> string \<Rightarrow> walk \<Rightarrow> string option \<times> walk" where
  \<comment> \<open>what the rewrite does at one eligible title (from the construction of \<open>idRegex\<close> to
      \<open>fileChanged = true\<close>): \<open>None\<close> when the title is skipped, the new title otherwise,
      and the new state; \<open>b\<close> is the parameter \<open>baseNumber\<close> of \<open>transformFile\<close>\<close>
  "visit_title c b title w =
     (let m = rmatch (idRegex (prefix c) (numberLength c)) False title;
          hasId = (m \<noteq> None)
      in if hasId \<and> \<not> overwriteExistingIds c then (None, w)
         else
           (let (nextId, newBase) = next_free (prefix c) (numberLength c) (usedIds w) (b + localInc w);
                newTitleRaw = trim (replace_match m title);
                finalTitle = nextId @ '': '' @ newTitleRaw
            in (Some finalTitle,
                w\<lparr>usedIds := Set_add nextId (usedIds w), localInc := newBase - b, fileChanged := True,
                  history := history w @
                    [\<lparr>first_candidate = b + localInc w, used_before = usedIds w,
                      allocated = nextId, cursor_after = newBase\<rparr>]\<rparr>)))"

text \<open>
  The visitor of \<open>transformFile\<close>. On a test declaration with an eligible title the first
  argument ends as a string literal holding the new title (a template literal is replaced,
  a string literal is updated in place) unless the title is skipped; the traversal
  then goes on into the callee and the arguments, of which the callee (an identifier) and
  the first argument (a literal without expressions) hold no call.
\<close>

fun transform_node :: "config \<Rightarrow> nat \<Rightarrow> node \<Rightarrow> walk \<Rightarrow> node \<times> walk"
  and transform_nodes :: "config \<Rightarrow> nat \<Rightarrow> node list \<Rightarrow> walk \<Rightarrow> node list \<times> walk" where
  "transform_node c b (CallExpression callee args) w =
     (if isTest callee then
        (case args of
           [] \<Rightarrow> (CallExpression callee args, w)
         | firstArg # rest \<Rightarrow>
             (case literal_title firstArg of
                None \<Rightarrow> (CallExpression callee args, w)
              | Some title \<Rightarrow>
                  (let (finalTitle, w1) = visit_title c b title w;
                       firstArg' = (case finalTitle of None \<Rightarrow> firstArg | Some t \<Rightarrow> StringLiteral t);
                       (rest', w2) = transform_nodes c b rest w1
                   in (CallExpression callee (firstArg' # rest'), w2))))
      else
        (let (callee', w1) = transform_node c b callee w;
             (args', w2) = transform_nodes c b args w1
         in (CallExpression callee' args', w2)))"
| "transform_node c b (MemberExpression obj prop) w =
     (let (obj', w1) = transform_node c b obj w;
          (prop', w2) = transform_node c b prop w1
      in (MemberExpression obj' prop', w2))"
| "transform_node c b (TemplateLiteral q es) w =
     (let (es', w1) = transform_nodes c b es w in (TemplateLiteral q es', w1))"
| "transform_node c b (Other ns) w =
     (let (ns', w1) = transform_nodes c b ns w in (Other ns', w1))"
| "transform_node c b (Identifier name) w = (Identifier name, w)"
| "transform_node c b (StringLiteral v) w = (StringLiteral v, w)"
| "transform_node c b (OtherLiteral v) w = (OtherLiteral v, w)"
| "transform_nodes c b [] w = ([], w)"
| "transform_nodes c b (n # ns) w =
     (let (n', w1) = transform_node c b n w;
          (ns', w2) = transform_nodes c b ns w1
      in (n' # ns', w2))"


definition transformFile :: "config \<Rightarrow> string \<times> node \<Rightarrow> string list \<Rightarrow> nat \<Rightarrow> allocation list
    \<Rightarrow> node \<times> bool \<times> string list \<times> nat \<times> allocation list" where
  \<comment> \<open>gives the content of the file afterwards, whether the file was written, the used
      identifiers and the returned \<open>localInc\<close>; \<open>h\<close> is the history of the run so far, and the
      last component the history after the file\<close>
  "transformFile c file used b h =
     (let (ast', w) = transform_node c b (snd file)
                        \<lparr>usedIds = used, localInc = 0, fileChanged = False, history = h\<rparr>
      in (if fileChanged w then ast' else snd file, fileChanged w, usedIds w, localInc w, history w))"

fun transform_files :: "config \<Rightarrow> files \<Rightarrow> string list \<Rightarrow> nat \<Rightarrow> allocation list
    \<Rightarrow> files \<times> string list \<times> string list \<times> nat \<times> allocation list" where
  \<comment> \<open>the loop \<open>for (const file of files)\<close> of \<open>main\<close>: the files afterwards, the paths
      written, the used identifiers, \<open>totalInc\<close> and the history\<close>
  "transform_files c [] used totalInc h = ([], [], used, totalInc, h)"
| "transform_files c (file # rest) used totalInc h =
     (let (ast', changed, used1, inc, h1) = transformFile c file used (baseNumber c + totalInc) h;
          (rest', written, used2, total2, h2) = transform_files c rest used1 (totalInc + inc) h1
      in ((fst file, ast') # rest', (if changed then [fst file] else []) @ written, used2, total2, h2))"

type_synonym registry = "(string \<times> (string \<times> string) list) list"
  \<comment> \<open>the object \<open>idOccurrences\<close>: for each id the (file, title) pairs, keys in insertion
      order (JavaScript lists keys that are array indices first; the order plays no role
      in what follows)\<close>

definition register :: "registry \<Rightarrow> occurrence \<Rightarrow> registry" where
  \<comment> \<open>\<open>if (!idOccurrences[id]) idOccurrences[id] = []; idOccurrences[id].push({file, title})\<close>\<close>
  "register reg occ =
     (case occ of (i, title, f) \<Rightarrow>
        (if i \<in> set (map fst reg)
         then map (\<lambda>(k, l). if k = i then (k, l @ [(f, title)]) else (k, l)) reg
         else reg @ [(i, [(f, title)])]))"

datatype outcome =
    Failed error
  | NoFilesMatched
  | Blocked registry
  | Completed

record result =
  outcome :: outcome
  files_after :: files
  written :: "string list"

definition main_add :: "string \<Rightarrow> bool \<Rightarrow> files \<Rightarrow> result" where
  \<comment> \<open>\<open>main\<close> of the add command, from the resolved \<open>baseId\<close> and overwrite flag and the
      files the glob returns\<close>
  "main_add baseId overwrite fs =
     (case parseBaseId baseId of
        Inl e \<Rightarrow> \<lparr>outcome = Failed e, files_after = fs, written = []\<rparr>
      | Inr (p, b, n) \<Rightarrow>
          (let c = \<lparr>prefix = p, baseNumber = b, numberLength = n, overwriteExistingIds = overwrite\<rparr>
           in if fs = [] then \<lparr>outcome = NoFilesMatched, files_after = fs, written = []\<rparr>
              else
                (let idOccurrences = foldl register [] (concat (map (parseTestIdsFromFile c) fs));
                     duplicates = filter (\<lambda>(i, l). length l > 1) idOccurrences
                 in if duplicates \<noteq> []
                    then \<lparr>outcome = Blocked duplicates, files_after = fs, written = []\<rparr>
                    else
                      (let (fs', wr, used, total, h) = transform_files c fs (map fst idOccurrences) 0 []
                       in \<lparr>outcome = Completed, files_after = fs', written = wr\<rparr>))))"


section \<open>The clean command\<close>

text \<open>
  The repository holds two versions of the clean command. The first takes the prefix of
  the seed alone and strips any run of digits (\<open>getIdPrefix\<close>, \<open>transformFile\<close>); the second
  takes prefix and width and strips exactly that many digits (\<open>parseBaseId\<close>, \<open>cleanFile\<close>).
  Where the prefix is spliced into a pattern, the model reads its characters literally, as
  the \<open>RegExp\<close> does when the prefix is \<open>plain\<close>.
\<close>

definition prefixRegex :: "string \<Rightarrow> regex" where
  \<comment> \<open>\<^verbatim>\<open>^${prefix}(\d+):\s*\<close>\<close>
  "prefixRegex p = lit p @ [(Digit, Plus), (Chr CHR '':'', Once), (Space, Star)]"

fun calleeName :: "node \<Rightarrow> string option" where
  "calleeName (Identifier name) = Some name"
| "calleeName (MemberExpression obj (Identifier name)) = Some name"
| "calleeName _ = None"

definition isTestName :: "node \<Rightarrow> bool" where
  \<comment> \<open>\<open>calleeName === 'it' || calleeName === 'test'\<close>\<close>
  "isTestName callee = (calleeName callee = Some ''it'' \<or> calleeName callee = Some ''test'')"

fun truthy_value :: "node \<Rightarrow> bool" where
  \<comment> \<open>whether \<open>firstArg.value\<close> is truthy\<close>
  "truthy_value (StringLiteral v) = (v \<noteq> [])"
| "truthy_value (OtherLiteral b) = b"
| "truthy_value _ = False"

definition clean_getIdPrefix :: "string \<Rightarrow> error + string" where
  \<comment> \<open>\<open>baseId.match(/^(.*?)(\d+)$/)\<close>, giving the prefix\<close>
  "clean_getIdPrefix baseId =
     (case rmatch [(Dot, LazyStar), (Digit, Plus)] True baseId of
        None \<Rightarrow> Inl InvalidSeedFormat
      | Some m \<Rightarrow> Inr (m ! 0))"

fun strip_node :: "string \<Rightarrow> node \<Rightarrow> bool \<Rightarrow> node \<times> bool"
  and strip_nodes :: "string \<Rightarrow> node list \<Rightarrow> bool \<Rightarrow> node list \<times> bool" where
  \<comment> \<open>the visitor of the first version's \<open>transformFile\<close>, threading \<open>fileChanged\<close>\<close>
  "strip_node p (CallExpression callee args) ch =
     (if isTestName callee then
        (case args of
           [] \<Rightarrow> (CallExpression callee args, ch)
         | firstArg # rest \<Rightarrow>
             (if \<not> truthy_value firstArg then (CallExpression callee args, ch)
              else
                (case (case literal_title firstArg of
                         None \<Rightarrow> None
                       | Some testTitle \<Rightarrow>
                           (case rmatch (prefixRegex p) False testTitle of
                              None \<Rightarrow> None
                            | Some m \<Rightarrow> Some (replace_match (Some m) testTitle))) of
                   None \<Rightarrow>
                     (let (callee', ch1) = strip_node p callee ch;
                          (args', ch2) = strip_nodes p args ch1
                      in (CallExpression callee' args', ch2))
                 | Some newTitle \<Rightarrow>
                     (let (callee', ch1) = strip_node p callee True;
                          (rest', ch2) = strip_nodes p rest ch1
                      in (CallExpression callee' (StringLiteral newTitle # rest'), ch2)))))
      else
        (let (callee', ch1) = strip_node p callee ch;
             (args', ch2) = strip_nodes p args ch1
         in (CallExpression callee' args', ch2)))"
| "strip_node p (MemberExpression obj prop) ch =
     (let (obj', ch1) = strip_node p obj ch;
          (prop', ch2) = strip_node p prop ch1
      in (MemberExpression obj' prop', ch2))"
| "strip_node p (TemplateLiteral q es) ch =
     (let (es', ch1) = strip_nodes p es ch in (TemplateLiteral q es', ch1))"
| "strip_node p (Other ns) ch =
     (let (ns', ch1) = strip_nodes p ns ch in (Other ns', ch1))"
| "strip_node p (Identifier name) ch = (Identifier name, ch)"
| "strip_node p (StringLiteral v) ch = (StringLiteral v, ch)"
| "strip_node p (OtherLiteral v) ch = (OtherLiteral v, ch)"
| "strip_nodes p [] ch = ([], ch)"
| "strip_nodes p (n # ns) ch =
     (let (n', ch1) = strip_node p n ch;
          (ns', ch2) = strip_nodes p ns ch1
      in (n' # ns', ch2))"

definition clean_transformFile :: "string \<Rightarrow> string \<times> node \<Rightarrow> node \<times> bool" where
  \<comment> \<open>the content of the file afterwards and whether the file was written\<close>
  "clean_transformFile p file =
     (let (ast', ch) = strip_node p (snd file) False in (if ch then ast' else snd file, ch))"

definition write_back :: "(string \<times> node \<Rightarrow> node \<times> bool) \<Rightarrow> files \<Rightarrow> files \<times> string list" where
  \<comment> \<open>a loop over the files that handles each on its own: the files afterwards and the
      paths written\<close>
  "write_back g fs =
     (map (\<lambda>file. (fst file, fst (g file))) fs, map fst (filter (\<lambda>file. snd (g file)) fs))"

definition main_clean_prefix :: "string \<Rightarrow> files \<Rightarrow> result" where
  \<comment> \<open>\<open>main\<close> of the first version\<close>
  "main_clean_prefix baseId fs =
     (case clean_getIdPrefix baseId of
        Inl e \<Rightarrow> \<lparr>outcome = Failed e, files_after = fs, written = []\<rparr>
      | Inr p \<Rightarrow>
          (if fs = [] then \<lparr>outcome = NoFilesMatched, files_after = fs, written = []\<rparr>
           else (let (fs', wr) = write_back (clean_transformFile p) fs
                 in \<lparr>outcome = Completed, files_after = fs', written = wr\<rparr>)))"

definition clean_parseBaseId :: "string \<Rightarrow> error + (string \<times> nat)" where
  \<comment> \<open>\<open>baseId.match(/^([A-Za-z]*)(\d+)$/)\<close>, giving prefix and numberLength\<close>
  "clean_parseBaseId baseId =
     (case rmatch [(Letter, Star), (Digit, Plus)] True baseId of
        None \<Rightarrow> Inl InvalidSeedFormat
      | Some m \<Rightarrow> Inr (m ! 0, length (m ! 1)))"

fun clean_node :: "string \<Rightarrow> nat \<Rightarrow> node \<Rightarrow> bool \<Rightarrow> node \<times> bool"
  and clean_nodes :: "string \<Rightarrow> nat \<Rightarrow> node list \<Rightarrow> bool \<Rightarrow> node list \<times> bool" where
  \<comment> \<open>the visitor of \<open>cleanFile\<close>, threading \<open>fileChanged\<close>; its pattern
      \<^verbatim>\<open>^${prefix}(\d{${numberLength}}):\s*\<close> has the pieces of \<open>idRegex\<close>\<close>
  "clean_node p n (CallExpression callee args) ch =
     (if isTest callee then
        (case args of
           [] \<Rightarrow> (CallExpression callee args, ch)
         | firstArg # rest \<Rightarrow>
             (case literal_title firstArg of
                None \<Rightarrow> (CallExpression callee args, ch)
              | Some title \<Rightarrow>
                  (case rmatch (idRegex p n) False title of
                     None \<Rightarrow>
                       (let (rest', ch1) = clean_nodes p n rest ch
                        in (CallExpression callee (firstArg # rest'), ch1))
                   | Some m \<Rightarrow>
                       (let cleanedTitle = trim (replace_match (Some m) title);
                            (rest', ch1) = clean_nodes p n rest True
                        in (CallExpression callee (StringLiteral cleanedTitle # rest'), ch1)))))
      else
        (let (callee', ch1) = clean_node p n callee ch;
             (args', ch2) = clean_nodes p n args ch1
         in (CallExpression callee' args', ch2)))"
| "clean_node p n (MemberExpression obj prop) ch =
     (let (obj', ch1) = clean_node p n obj ch;
          (prop', ch2) = clean_node p n prop ch1
      in (MemberExpression obj' prop', ch2))"
| "clean_node p n (TemplateLiteral q es) ch =
     (let (es', ch1) = clean_nodes p n es ch in (TemplateLiteral q es', ch1))"
| "clean_node p n (Other ns) ch =
     (let (ns', ch1) = clean_nodes p n ns ch in (Other ns', ch1))"
| "clean_node p n (Identifier name) ch = (Identifier name, ch)"
| "clean_node p n (StringLiteral v) ch = (StringLiteral v, ch)"
| "clean_node p n (OtherLiteral v) ch = (OtherLiteral v, ch)"
| "clean_nodes p n [] ch = ([], ch)"
| "clean_nodes p n (x # xs) ch =
     (let (x', ch1) = clean_node p n x ch;
          (xs', ch2) = clean_nodes p n xs ch1
      in (x' # xs', ch2))"

definition cleanFile :: "string \<Rightarrow> nat \<Rightarrow> string \<times> node \<Rightarrow> node \<times> bool" where
  "cleanFile p n file =
     (let (ast', ch) = clean_node p n (snd file) False in (if ch then ast' else snd file, ch))"

definition main_clean :: "string \<Rightarrow> files \<Rightarrow> result" where
  \<comment> \<open>\<open>main\<close> of the second version\<close>
  "main_clean baseId fs =
     (case clean_parseBaseId baseId of
        Inl e \<Rightarrow> \<lparr>outcome = Failed e, files_after = fs, written = []\<rparr>
      | Inr (p, n) \<Rightarrow>
          (if fs = [] then \<lparr>outcome = NoFilesMatched, files_after = fs, written = []\<rparr>
           else (let (fs', wr) = write_back (cleanFile p n) fs
                 in \<lparr>outcome = Completed, files_after = fs', written = wr\<rparr>)))"


section \<open>The compare command\<close>

definition extracted :: "string \<Rightarrow> string \<Rightarrow> (nat \<times> string) list" where
  \<comment> \<open>the entry \<open>{number, full}\<close> pushed for a title that matches\<close>
  "extracted p testTitle =
     (case rmatch (prefixRegex p) False testTitle of
        None \<Rightarrow> []
      | Some m \<Rightarrow> [(parseInt (m ! length p), p @ m ! length p)])"

fun extract_node :: "string \<Rightarrow> node \<Rightarrow> (nat \<times> string) list"
  and extract_nodes :: "string \<Rightarrow> node list \<Rightarrow> (nat \<times> string) list" where
  "extract_node p (CallExpression callee args) =
     (if isTestName callee then
        (case args of
           [] \<Rightarrow> []
         | firstArg # rest \<Rightarrow>
             (if \<not> truthy_value firstArg then []
              else (case literal_title firstArg of None \<Rightarrow> [] | Some testTitle \<Rightarrow> extracted p testTitle)
                   @ extract_node p callee @ extract_nodes p args))
      else extract_node p callee @ extract_nodes p args)"
| "extract_node p (MemberExpression obj prop) = extract_node p obj @ extract_node p prop"
| "extract_node p (TemplateLiteral q es) = extract_nodes p es"
| "extract_node p (Other ns) = extract_nodes p ns"
| "extract_node p (Identifier name) = []"
| "extract_node p (StringLiteral v) = []"
| "extract_node p (OtherLiteral b) = []"
| "extract_nodes p [] = []"
| "extract_nodes p (n # ns) = extract_node p n @ extract_nodes p ns"

definition extractIdsFromFile :: "string \<Rightarrow> string \<times> node \<Rightarrow> (nat \<times> string) list" where
  "extractIdsFromFile p file = extract_node p (snd file)"

definition compareIds :: "(nat \<times> string) list \<Rightarrow> nat \<Rightarrow> nat list \<times> string list" where
  \<comment> \<open>gives \<open>missing\<close> and \<open>duplicates\<close>; \<open>base\<close> is the parameter \<open>baseNumber\<close>, of default
      \<open>1\<close>; the loop runs \<open>i\<close> from \<open>baseNumber\<close> to the last
      element of \<open>sorted\<close>, and not at all when \<open>sorted\<close> is empty (the bound is then
      \<open>undefined\<close>)\<close>
  "compareIds idObjects base =
     (let numbers = map fst idObjects;
          fulls = map snd idObjects;
          duplicates = filter (\<lambda>fullId. count_list fulls fullId > 1) (rev (remdups (rev fulls)));
          sorted = sort (remdups numbers);
          missing = (if sorted = [] then []
                     else filter (\<lambda>i. i \<notin> set sorted) [base..<Suc (last sorted)])
      in (missing, duplicates))"

record report =
  total :: nat
  duplicateIds :: "string list"
  missingIds :: "string list"

definition main_compare :: "string \<Rightarrow> files \<Rightarrow> error + report option" where
  \<comment> \<open>\<open>main\<close> of compare: what it prints, \<open>None\<close> when no file matched; \<open>compareIds\<close> is
      called without a base number and so with the default \<open>1\<close>\<close>
  "main_compare baseId fs =
     (case getIdPrefix baseId of
        Inl e \<Rightarrow> Inl e
      | Inr (p, padding) \<Rightarrow>
          (if fs = [] then Inr None
           else
             (let allIds = concat (map (extractIdsFromFile p) fs);
                  (missing, duplicates) = compareIds allIds 1
              in Inr (Some \<lparr>total = length allIds, duplicateIds = duplicates,
                            missingIds = map (formatId p padding) missing\<rparr>))))"


section \<open>The standalone script\<close>

text \<open>
  \<open>index.cjs\<close> is the add operation as a script of its own. Its identifiers are bare
  numbers of the width of the configured \<open>startIndex\<close>, which it reads with \<open>parseInt\<close>:
  leading white space, an optional sign, then the digits up to the first other character.
\<close>

definition parseInt_js :: "string \<Rightarrow> int option" where
  \<comment> \<open>\<open>parseInt(s, 10)\<close> on any string; \<open>None\<close> is \<open>NaN\<close>\<close>
  "parseInt_js s =
     (let t = dropWhile is_space s;
          neg = (t \<noteq> [] \<and> hd t = CHR ''-'');
          u = (if t \<noteq> [] \<and> (hd t = CHR ''-'' \<or> hd t = CHR ''+'') then tl t else t);
          ds = takeWhile is_digit u
      in if ds = [] then None
         else Some (if neg then - int (parseInt ds) else int (parseInt ds)))"

definition toString_int :: "int \<Rightarrow> string" where
  "toString_int i = (if i < 0 then CHR ''-'' # toString (nat (- i)) else toString (nat i))"

definition padded :: "nat \<Rightarrow> int \<Rightarrow> string" where
  \<comment> \<open>\<open>nextIdNum.toString().padStart(idLength, '0')\<close>\<close>
  "padded w i = padStart w CHR ''0'' (toString_int i)"

lemma digit_char_not_minus: "d < 10 \<Longrightarrow> digit_char d \<noteq> CHR ''-''"
proof
  assume d: "d < 10" and e: "digit_char d = CHR ''-''"
  have "(of_char (digit_char d) :: nat) = 48 + d" using d by (simp add: digit_char_def)
  with e show False by simp
qed

lemma minus_notin_toString: "CHR ''-'' \<notin> set (toString n)"
proof (induction n rule: toString.induct)
  case (1 n)
  show ?case
  proof (cases "n < 10")
    case True
    then show ?thesis using digit_char_not_minus [of n]
      by (auto simp add: toString.simps [of n])
  next
    case False
    with 1 digit_char_not_minus [of "n mod 10"] show ?thesis
      by (auto simp add: toString.simps [of n])
  qed
qed

definition unpad :: "string \<Rightarrow> int" where
  "unpad s = (if CHR ''-'' \<in> set s then - int (parseInt (tl (dropWhile (\<lambda>c. c \<noteq> CHR ''-'') s)))
              else int (parseInt s))"

lemma unpad_padded: "unpad (padded w i) = i"
proof (cases "i < 0")
  case True
  have "dropWhile (\<lambda>c. c \<noteq> CHR ''-'') (replicate k CHR ''0'' @ CHR ''-'' # t) = CHR ''-'' # t" for k t
    by (induction k) simp_all
  with True show ?thesis
    by (simp add: unpad_def padded_def padStart_def toString_int_def parseInt_toString)
next
  case False
  then show ?thesis
    using minus_notin_toString [of "nat i"]
    by (simp add: unpad_def padded_def padStart_def toString_int_def parseInt_zeros parseInt_toString)
qed

lemma finite_padded: "finite {k. padded w k \<in> set used}"
proof -
  have "inj (padded w)" by (rule injI) (metis unpad_padded)
  then have "finite (padded w -` set used)" by (simp add: finite_vimageI)
  then show ?thesis by (simp add: vimage_def)
qed

function next_unused :: "nat \<Rightarrow> string list \<Rightarrow> int \<Rightarrow> string \<times> int" where
  "next_unused w used nextIdNum =
     (let nextIdStr = padded w nextIdNum
      in if nextIdStr \<in> set used then next_unused w used (nextIdNum + 1) else (nextIdStr, nextIdNum))"
  by pat_completeness auto
termination
proof (relation "measure (\<lambda>(w, used, n). card {k. n \<le> k \<and> padded w k \<in> set used})")
  show "wf (measure (\<lambda>(w, used, n). card {k. n \<le> k \<and> padded w k \<in> set used}))"
    by simp
next
  fix w used nextIdNum x
  assume "x = padded w nextIdNum" and "x \<in> set used"
  then have mem: "padded w nextIdNum \<in> set used" by simp
  have fin: "finite {k. nextIdNum \<le> k \<and> padded w k \<in> set used}"
    by (rule finite_subset [OF _ finite_padded [of w used]]) auto
  have "nextIdNum \<in> {k. nextIdNum \<le> k \<and> padded w k \<in> set used}"
    and "nextIdNum \<notin> {k. nextIdNum + 1 \<le> k \<and> padded w k \<in> set used}"
    using mem by simp_all
  moreover have "{k. nextIdNum + 1 \<le> k \<and> padded w k \<in> set used}
          \<subseteq> {k. nextIdNum \<le> k \<and> padded w k \<in> set used}"
    by auto
  ultimately have "{k. nextIdNum + 1 \<le> k \<and> padded w k \<in> set used}
          \<subset> {k. nextIdNum \<le> k \<and> padded w k \<in> set used}"
    by blast
  then have "card {k. nextIdNum + 1 \<le> k \<and> padded w k \<in> set used}
               < card {k. nextIdNum \<le> k \<and> padded w k \<in> set used}"
    by (rule psubset_card_mono [OF fin])
  then show "((w, used, nextIdNum + 1), (w, used, nextIdNum))
       \<in> measure (\<lambda>(w, used, n). card {k. n \<le> k \<and> padded w k \<in> set used})"
    by simp
qed

declare next_unused.simps [simp del]

definition index_found :: "nat \<Rightarrow> string \<Rightarrow> string \<Rightarrow> occurrence list" where
  \<comment> \<open>the pattern \<^verbatim>\<open>^(\d{${idLength}}):\s*\<close> has the pieces of \<open>idRegex\<close> for the empty prefix\<close>
  "index_found idLength filePath testTitle =
     (case rmatch (idRegex [] idLength) False testTitle of
        None \<Rightarrow> []
      | Some m \<Rightarrow> [(m ! 0, testTitle, filePath)])"

fun index_parse_node :: "nat \<Rightarrow> string \<Rightarrow> node \<Rightarrow> occurrence list"
  and index_parse_nodes :: "nat \<Rightarrow> string \<Rightarrow> node list \<Rightarrow> occurrence list" where
  "index_parse_node n f (CallExpression callee args) =
     (if isTestName callee then
        (case args of
           [] \<Rightarrow> []
         | firstArg # rest \<Rightarrow>
             (case literal_title firstArg of None \<Rightarrow> [] | Some testTitle \<Rightarrow> index_found n f testTitle))
      else [])
     @ index_parse_node n f callee @ index_parse_nodes n f args"
| "index_parse_node n f (MemberExpression obj prop) = index_parse_node n f obj @ index_parse_node n f prop"
| "index_parse_node n f (TemplateLiteral q es) = index_parse_nodes n f es"
| "index_parse_node n f (Other ns) = index_parse_nodes n f ns"
| "index_parse_node n f (Identifier name) = []"
| "index_parse_node n f (StringLiteral v) = []"
| "index_parse_node n f (OtherLiteral b) = []"
| "index_parse_nodes n f [] = []"
| "index_parse_nodes n f (x # xs) = index_parse_node n f x @ index_parse_nodes n f xs"

definition index_visit_title :: "nat \<Rightarrow> bool \<Rightarrow> int \<Rightarrow> string \<Rightarrow> walk \<Rightarrow> string option \<times> walk" where
  \<comment> \<open>what the script's \<open>transformFile\<close> does at one title; \<open>g\<close> is \<open>globalStartIndexNum\<close>,
      the field \<open>localInc\<close> holds \<open>localIncrement\<close>\<close>
  "index_visit_title idLength overwrite g testTitle w =
     (let m = rmatch (idRegex [] idLength) False testTitle;
          hasIdPrefix = (m \<noteq> None)
      in if hasIdPrefix \<and> \<not> overwrite then (None, w)
         else
           (let (nextIdStr, nextIdNum) = next_unused idLength (usedIds w) (g + int (localInc w));
                newTitleRaw = trim (replace_match m testTitle);
                finalTitle = nextIdStr @ '': '' @ newTitleRaw
            in (Some finalTitle,
                w\<lparr>usedIds := Set_add nextIdStr (usedIds w), localInc := nat (nextIdNum - g + 1),
                   fileChanged := True\<rparr>)))"

fun index_transform_node :: "nat \<Rightarrow> bool \<Rightarrow> int \<Rightarrow> node \<Rightarrow> walk \<Rightarrow> node \<times> walk"
  and index_transform_nodes :: "nat \<Rightarrow> bool \<Rightarrow> int \<Rightarrow> node list \<Rightarrow> walk \<Rightarrow> node list \<times> walk" where
  \<comment> \<open>the visitor of the script's \<open>transformFile\<close>; it never returns \<open>false\<close>\<close>
  "index_transform_node n ow g (CallExpression callee args) w =
     (if isTestName callee then
        (case args of
           [] \<Rightarrow>
             (let (callee', w1) = index_transform_node n ow g callee w
              in (CallExpression callee' [], w1))
         | firstArg # rest \<Rightarrow>
             (case literal_title firstArg of
                None \<Rightarrow>
                  (let (callee', w1) = index_transform_node n ow g callee w;
                       (args', w2) = index_transform_nodes n ow g args w1
                   in (CallExpression callee' args', w2))
              | Some testTitle \<Rightarrow>
                  (let (finalTitle, w1) = index_visit_title n ow g testTitle w;
                       firstArg' = (case finalTitle of None \<Rightarrow> firstArg | Some t \<Rightarrow> StringLiteral t);
                       (callee', w2) = index_transform_node n ow g callee w1;
                       (rest', w3) = index_transform_nodes n ow g rest w2
                   in (CallExpression callee' (firstArg' # rest'), w3))))
      else
        (let (callee', w1) = index_transform_node n ow g callee w;
             (args', w2) = index_transform_nodes n ow g args w1
         in (CallExpression callee' args', w2)))"
| "index_transform_node n ow g (MemberExpression obj prop) w =
     (let (obj', w1) = index_transform_node n ow g obj w;
          (prop', w2) = index_transform_node n ow g prop w1
      in (MemberExpression obj' prop', w2))"
| "index_transform_node n ow g (TemplateLiteral q es) w =
     (let (es', w1) = index_transform_nodes n ow g es w in (TemplateLiteral q es', w1))"
| "index_transform_node n ow g (Other ns) w =
     (let (ns', w1) = index_transform_nodes n ow g ns w in (Other ns', w1))"
| "index_transform_node n ow g (Identifier name) w = (Identifier name, w)"
| "index_transform_node n ow g (StringLiteral v) w = (StringLiteral v, w)"
| "index_transform_node n ow g (OtherLiteral v) w = (OtherLiteral v, w)"
| "index_transform_nodes n ow g [] w = ([], w)"
| "index_transform_nodes n ow g (x # xs) w =
     (let (x', w1) = index_transform_node n ow g x w;
          (xs', w2) = index_transform_nodes n ow g xs w1
      in (x' # xs', w2))"

definition index_transformFile :: "nat \<Rightarrow> bool \<Rightarrow> string \<times> node \<Rightarrow> string list \<Rightarrow> int
    \<Rightarrow> node \<times> bool \<times> string list \<times> nat" where
  "index_transformFile n ow file used g =
     (let (ast', w) = index_transform_node n ow g (snd file)
                        \<lparr>usedIds = used, localInc = 0, fileChanged = False, history = []\<rparr>
      in (if fileChanged w then ast' else snd file, fileChanged w, usedIds w, localInc w))"

fun index_transform_files :: "nat \<Rightarrow> bool \<Rightarrow> int \<Rightarrow> files \<Rightarrow> string list \<Rightarrow> nat
    \<Rightarrow> files \<times> string list" where
  \<comment> \<open>step 5 of \<open>main\<close>: the files afterwards and the paths written\<close>
  "index_transform_files n ow g [] used totalIncrement = ([], [])"
| "index_transform_files n ow g (file # rest) used totalIncrement =
     (let (ast', changed, used1, usedInFile) = index_transformFile n ow file used (g + int totalIncrement);
          (rest', wr) = index_transform_files n ow g rest used1 (totalIncrement + usedInFile)
      in ((fst file, ast') # rest', (if changed then [fst file] else []) @ wr))"

definition main_index :: "string \<Rightarrow> bool \<Rightarrow> files \<Rightarrow> registry \<times> result" where
  \<comment> \<open>\<open>main\<close> of the script, from the configured \<open>startIndex\<close> and \<open>overwriteExistingIds\<close>
      and the files the glob returns: the duplicates it reports, and the result\<close>
  "main_index startIndex overwrite fs =
     (if fs = [] then ([], \<lparr>outcome = NoFilesMatched, files_after = fs, written = []\<rparr>)
      else
        (let idOccurrences = foldl register []
                               (concat (map (\<lambda>file. index_parse_node (length startIndex) (fst file) (snd file)) fs));
             duplicates = filter (\<lambda>(i, l). length l > 1) idOccurrences
         in (case parseInt_js startIndex of
               None \<Rightarrow> (duplicates, \<lparr>outcome = Failed InvalidStartIndex, files_after = fs, written = []\<rparr>)
             | Some globalStartIndexNum \<Rightarrow>
                 (let (fs', wr) = index_transform_files (length startIndex) overwrite globalStartIndexNum
                                    fs (map fst idOccurrences) 0
                  in (duplicates, \<lparr>outcome = Completed, files_after = fs', written = wr\<rparr>)))))"


section \<open>Notions of the specification and of the statements\<close>

text \<open>
  The specification speaks of the final run of digits of a seed and of what comes before
  it, and of a title that begins with the prefix, a number of digits and a colon.
\<close>

definition trailing_digits :: "string \<Rightarrow> string" where
  "trailing_digits s = rev (takeWhile is_digit (rev s))"

definition before_digits :: "string \<Rightarrow> string" where
  "before_digits s = rev (dropWhile is_digit (rev s))"

definition begins_with_id :: "string \<Rightarrow> nat \<Rightarrow> string \<Rightarrow> bool" where
  \<comment> \<open>the title begins with the prefix, then exactly \<open>n\<close> digits, then a colon\<close>
  "begins_with_id p n t =
     (take (length p) t = p \<and>
      (let r = drop (length p) t
       in length (takeWhile is_digit r) = n \<and> take 1 (drop n r) = '':''))"

definition begins_with_number :: "string \<Rightarrow> string \<Rightarrow> bool" where
  \<comment> \<open>the title begins with the prefix, then one or more digits, then a colon\<close>
  "begins_with_number p t =
     (take (length p) t = p \<and>
      (let r = drop (length p) t; m = length (takeWhile is_digit r)
       in 1 \<le> m \<and> take 1 (drop m r) = '':''))"

text \<open>The (file, title) pairs that bear an identifier among the occurrences of a scan.\<close>

definition bearing :: "string \<Rightarrow> occurrence list \<Rightarrow> (string \<times> string) list" where
  "bearing i occs = map (\<lambda>(i', title, f). (f, title)) (filter (\<lambda>occ. fst occ = i) occs)"

text \<open>
  The number of call expressions of a tree and of the files. A run allocates at most one
  identifier for each of them.
\<close>

fun calls :: "node \<Rightarrow> nat"
  and calls_list :: "node list \<Rightarrow> nat" where
  "calls (CallExpression callee args) = Suc (calls callee + calls_list args)"
| "calls (MemberExpression obj prop) = calls obj + calls prop"
| "calls (TemplateLiteral q es) = calls_list es"
| "calls (Other ns) = calls_list ns"
| "calls (Identifier name) = 0"
| "calls (StringLiteral v) = 0"
| "calls (OtherLiteral b) = 0"
| "calls_list [] = 0"
| "calls_list (n # ns) = calls n + calls_list ns"

definition calls_files :: "files \<Rightarrow> nat" where
  "calls_files fs = sum_list (map (\<lambda>file. calls (snd file)) fs)"

text \<open>
  What holds of a run of add between two allocations, for the prefix \<open>p\<close> and the width
  \<open>n\<close>, the identifiers \<open>ks\<close> of the scan and the number \<open>b0\<close> of the seed: \<open>cur\<close> is the
  allocation cursor (\<open>baseNumber + localInc\<close>), \<open>used\<close> the set \<open>usedIds\<close> and \<open>h\<close> the
  history.
\<close>

definition run_inv :: "string \<Rightarrow> nat \<Rightarrow> string list \<Rightarrow> nat \<Rightarrow> nat \<Rightarrow> string list \<Rightarrow> allocation list \<Rightarrow> bool" where
  "run_inv p n ks b0 cur used h =
     (used = ks @ map allocated h
      \<and> cur = (if h = [] then b0 else cursor_after (last h))
      \<and> (\<forall>k. b0 \<le> k \<and> k < cur \<longrightarrow> formatId p n k \<in> set used)
      \<and> (\<forall>i < length h.
            first_candidate (h ! i) = (if i = 0 then b0 else cursor_after (h ! (i - 1)))
            \<and> first_candidate (h ! i) < cursor_after (h ! i)
            \<and> used_before (h ! i) = ks @ map allocated (take i h)
            \<and> allocated (h ! i) = formatId p n (cursor_after (h ! i) - 1)
            \<and> allocated (h ! i) \<notin> set (used_before (h ! i))
            \<and> (\<forall>k. first_candidate (h ! i) \<le> k \<and> k < cursor_after (h ! i) - 1
                   \<longrightarrow> formatId p n k \<in> set (used_before (h ! i)))))"

section \<open>The matcher\<close>

lemma first_some_all_None: "(\<And>x. x \<in> set xs \<Longrightarrow> x = None) \<Longrightarrow> first_some xs = None"
  by (induction xs) (auto split: option.splits)

lemma first_some_append: "first_some (xs @ ys) = (case first_some xs of Some y \<Rightarrow> Some y | None \<Rightarrow> first_some ys)"
  by (induction xs) (auto split: option.splits)

lemma take_takeWhile_length: "take (length (takeWhile P s)) s = takeWhile P s"
  by (induction s) auto

lemma drop_takeWhile_length: "drop (length (takeWhile P s)) s = dropWhile P s"
  by (induction s) auto

lemma rmatch_Once:
  "rmatch ((a, Once) # ps) d s =
     (case s of [] \<Rightarrow> None
      | x # xs \<Rightarrow> if accepts a x then map_option ((#) [x]) (rmatch ps d xs) else None)"
  by (cases s) (auto split: option.splits)

lemma rmatch_Times:
  "rmatch ((a, Times n) # ps) d s =
     (if n \<le> length (takeWhile (accepts a) s)
      then map_option ((#) (take n s)) (rmatch ps d (drop n s)) else None)"
  by (auto split: option.splits)

lemma rmatch_Star_last: "rmatch [(a, Star)] False s = Some [takeWhile (accepts a) s]"
  by (simp add: take_takeWhile_length)

lemma rmatch_lit:
  "rmatch (lit p @ ps) d s =
     (if take (length p) s = p
      then map_option ((@) (map (\<lambda>c. [c]) p)) (rmatch ps d (drop (length p) s)) else None)"
proof (induction p arbitrary: s)
  case Nil
  have "(@) ([] :: string list) = (\<lambda>x. x)" by (rule ext) simp
  then show ?case by (simp add: lit_def option.map_ident)
next
  case (Cons c p)
  have step: "lit (c # p) @ ps = (Chr c, Once) # (lit p @ ps)" by (simp add: lit_def)
  show ?case
  proof (cases s)
    case Nil
    then show ?thesis unfolding step rmatch_Once by simp
  next
    case (Cons x xs)
    then show ?thesis unfolding step rmatch_Once using Cons.IH [of xs]
      by (auto simp add: option.map_comp comp_def)
  qed
qed


declare rmatch.simps(2) [simp del]

lemma accepts_class [simp]:
  "accepts Digit = is_digit" "accepts Space = is_space" "accepts Letter = is_letter"
  by (rule ext, simp)+

lemma colon_not_digit: "\<not> is_digit CHR '':''"
  by (simp add: is_digit_def)

lemma takeWhile_nth_holds: "k < length (takeWhile P r) \<Longrightarrow> P (r ! k)"
  by (metis nth_mem set_takeWhileD takeWhile_nth)

lemma take1_drop_inside:
  assumes "k < length (takeWhile is_digit r)"
  shows "take 1 (drop k r) \<noteq> '':''"
proof -
  have kr: "k < length r" using assms length_takeWhile_le [of is_digit r] by linarith
  have "is_digit (r ! k)" using assms by (rule takeWhile_nth_holds)
  moreover have "take 1 (drop k r) = [r ! k]"
    using Cons_nth_drop_Suc [OF kr, symmetric] by simp
  ultimately show ?thesis using colon_not_digit by auto
qed

lemma rmatch_colon_spaces:
  "rmatch [(Chr CHR '':'', Once), (Space, Star)] False s =
     (if take 1 s = '':'' then Some ['':'', takeWhile is_space (drop 1 s)] else None)"
  unfolding rmatch_Once by (cases s) (auto simp add: rmatch_Star_last simp del: rmatch.simps)

lemma rmatch_idRegex:
  "rmatch (idRegex p n) False t =
     (if begins_with_id p n t
      then Some (map (\<lambda>c. [c]) p @ [take n (drop (length p) t), '':'',
                   takeWhile is_space (drop (Suc n) (drop (length p) t))])
      else None)"
proof -
  define r where "r = drop (length p) t"
  have tail: "rmatch [(Digit, Times n), (Chr CHR '':'', Once), (Space, Star)] False r =
     (if length (takeWhile is_digit r) = n \<and> take 1 (drop n r) = '':''
      then Some [take n r, '':'', takeWhile is_space (drop (Suc n) r)] else None)"
  proof (cases "n \<le> length (takeWhile is_digit r)")
    case False
    then show ?thesis unfolding rmatch_Times by auto
  next
    case True
    show ?thesis
    proof (cases "n = length (takeWhile is_digit r)")
      case True
      then show ?thesis unfolding rmatch_Times rmatch_colon_spaces by auto
    next
      case False
      with True have "n < length (takeWhile is_digit r)" by simp
      then have "take 1 (drop n r) \<noteq> '':''" by (rule take1_drop_inside)
      with False True show ?thesis unfolding rmatch_Times rmatch_colon_spaces by auto
    qed
  qed
  show ?thesis
    unfolding idRegex_def rmatch_lit tail [unfolded r_def] begins_with_id_def
    by (auto simp add: Let_def)
qed


lemma first_some_head_only:
  "first_some (map f xs) = None \<Longrightarrow> first_some (map f (m # xs)) = f m"
  by (cases "f m") simp_all

lemma rmatch_prefixRegex:
  "rmatch (prefixRegex p) False t =
     (if begins_with_number p t
      then Some (map (\<lambda>c. [c]) p @ [takeWhile is_digit (drop (length p) t), '':'',
                   takeWhile is_space (drop (Suc (length (takeWhile is_digit (drop (length p) t))))
                                           (drop (length p) t))])
      else None)"
proof -
  define r where "r = drop (length p) t"
  define m where "m = length (takeWhile is_digit r)"
  define f where "f = (\<lambda>k. map_option ((#) (take k r))
                          (rmatch [(Chr CHR '':'', Once), (Space, Star)] False (drop k r)))"
  have whole: "rmatch [(Digit, Plus), (Chr CHR '':'', Once), (Space, Star)] False r
                 = first_some (map f (rev [1..<Suc m]))"
    unfolding f_def m_def by (simp only: rmatch.simps(2) counts.simps accepts_class)
  have inner: "f k = None" if "k \<in> set (rev [1..<m])" for k
  proof -
    from that have "k < length (takeWhile is_digit r)" by (simp add: m_def)
    then have "take 1 (drop k r) \<noteq> '':''" by (rule take1_drop_inside)
    then show ?thesis unfolding f_def rmatch_colon_spaces by simp
  qed
  have rest_None: "first_some (map f (rev [1..<m])) = None"
    by (rule first_some_all_None) (auto simp add: inner)
  have fm: "f m = (if take 1 (drop m r) = '':''
      then Some [takeWhile is_digit r, '':'', takeWhile is_space (drop (Suc m) r)] else None)"
    unfolding f_def rmatch_colon_spaces by (simp add: m_def take_takeWhile_length)
  have tail: "rmatch [(Digit, Plus), (Chr CHR '':'', Once), (Space, Star)] False r =
     (if 1 \<le> m \<and> take 1 (drop m r) = '':''
      then Some [takeWhile is_digit r, '':'', takeWhile is_space (drop (Suc m) r)] else None)"
  proof (cases "1 \<le> m")
    case False
    then have "rev [1..<Suc m] = []" by simp
    then show ?thesis unfolding whole using False by simp
  next
    case True
    then have "rev [1..<Suc m] = m # rev [1..<m]" by simp
    then have "first_some (map f (rev [1..<Suc m])) = f m"
      using first_some_head_only [OF rest_None, of m] by simp
    then show ?thesis unfolding whole fm using True by simp
  qed
  show ?thesis
    unfolding prefixRegex_def rmatch_lit tail [unfolded r_def m_def] begins_with_number_def
    by (auto simp add: Let_def)
qed

lemma rmatch_digits_end:
  "rmatch [(Digit, Plus)] True r = (if r \<noteq> [] \<and> (\<forall>c \<in> set r. is_digit c) then Some [r] else None)"
proof -
  define m where "m = length (takeWhile is_digit r)"
  define f where "f = (\<lambda>k. map_option ((#) (take k r)) (rmatch [] True (drop k r)))"
  have m_le: "m \<le> length r" by (simp add: m_def length_takeWhile_le)
  have f_eq: "f k = (if length r \<le> k then Some [take k r] else None)" for k
    by (simp add: f_def)
  have whole: "rmatch [(Digit, Plus)] True r = first_some (map f (rev [1..<Suc m]))"
    unfolding f_def m_def by (simp only: rmatch.simps(2) counts.simps accepts_class)
  show ?thesis
  proof (cases "r \<noteq> [] \<and> (\<forall>c \<in> set r. is_digit c)")
    case True
    then have tw: "takeWhile is_digit r = r" by simp
    have m: "m = length r" unfolding m_def by (subst tw) (rule refl)
    with True have "rev [1..<Suc m] = m # rev [1..<m]" by (cases r) simp_all
    then have "first_some (map f (rev [1..<Suc m])) = Some [r]"
      by (simp add: f_eq m del: upt_Suc)
    then show ?thesis using True unfolding whole by simp
  next
    case False
    have "first_some (map f (rev [1..<Suc m])) = None"
    proof (rule first_some_all_None)
      fix x assume "x \<in> set (map f (rev [1..<Suc m]))"
      then obtain k where k: "1 \<le> k" "k \<le> m" and x: "x = f k" by auto
      have "k < length r"
      proof (rule ccontr)
        assume "\<not> k < length r"
        with k m_le have "m = length r" and "r \<noteq> []" by auto
        then have "takeWhile is_digit r = r"
          unfolding m_def by (metis takeWhile_eq_take take_all order_refl)
        then have "\<forall>c \<in> set r. is_digit c" by (metis set_takeWhileD)
        with \<open>r \<noteq> []\<close> False show False by simp
      qed
      then show "x = None" by (simp add: x f_eq)
    qed
    with False show ?thesis unfolding whole by simp
  qed
qed

lemma before_trailing: "before_digits s @ trailing_digits s = s"
  unfolding before_digits_def trailing_digits_def
  by (metis rev_append rev_rev_ident takeWhile_dropWhile_id)

lemma trailing_all_digits: "c \<in> set (trailing_digits s) \<Longrightarrow> is_digit c"
  unfolding trailing_digits_def by (auto dest: set_takeWhileD)

lemma before_last_not_digit:
  assumes "before_digits s \<noteq> []"
  shows "\<not> is_digit (last (before_digits s))"
proof -
  from assms have ne: "dropWhile is_digit (rev s) \<noteq> []" by (simp add: before_digits_def)
  then have "last (rev (dropWhile is_digit (rev s))) = hd (dropWhile is_digit (rev s))"
    by (simp add: last_rev)
  with hd_dropWhile [OF ne] show ?thesis by (simp add: before_digits_def)
qed

lemma split_digits_unique:
  assumes "s = a @ d" and "\<forall>c \<in> set d. is_digit c" and "a = [] \<or> \<not> is_digit (last a)"
  shows "before_digits s = a \<and> trailing_digits s = d"
proof -
  have rs: "rev s = rev d @ rev a" using assms(1) by simp
  have all: "\<And>c. c \<in> set (rev d) \<Longrightarrow> is_digit c" using assms(2) by simp
  have stop: "takeWhile is_digit (rev a) = [] \<and> dropWhile is_digit (rev a) = rev a"
  proof (cases a rule: rev_cases)
    case Nil
    then show ?thesis by simp
  next
    case (snoc ys y)
    with assms(3) show ?thesis by simp
  qed
  have "takeWhile is_digit (rev s) = rev d"
    unfolding rs using takeWhile_append2 [of "rev d" is_digit "rev a"] all stop by simp
  moreover have "dropWhile is_digit (rev s) = rev a"
    unfolding rs using dropWhile_append2 [of "rev d" is_digit "rev a"] all stop by simp
  ultimately show ?thesis by (simp add: before_digits_def trailing_digits_def)
qed

lemma letter_not_digit: "is_letter c \<Longrightarrow> \<not> is_digit c"
  by (auto simp add: is_letter_def is_digit_def)

lemma digit_not_line_terminator: "is_digit c \<Longrightarrow> \<not> is_line_terminator c"
  by (auto simp add: is_line_terminator_def is_digit_def)

lemma rmatch_letters_digits:
  "rmatch [(Letter, Star), (Digit, Plus)] True s =
     (if dropWhile is_letter s \<noteq> [] \<and> (\<forall>c \<in> set (dropWhile is_letter s). is_digit c)
      then Some [takeWhile is_letter s, dropWhile is_letter s] else None)"
proof -
  define m where "m = length (takeWhile is_letter s)"
  define f where "f = (\<lambda>k. map_option ((#) (take k s)) (rmatch [(Digit, Plus)] True (drop k s)))"
  have whole: "rmatch [(Letter, Star), (Digit, Plus)] True s = first_some (map f (rev [0..<Suc m]))"
    unfolding f_def m_def by (simp only: rmatch.simps(2) counts.simps accepts_class)
  have rv: "rev [0..<Suc m] = m # rev [0..<m]" by simp
  have "f k = None" if "k \<in> set (rev [0..<m])" for k
  proof -
    from that have km: "k < length (takeWhile is_letter s)" by (simp add: m_def)
    then have kl: "k < length s" using length_takeWhile_le [of is_letter s] by linarith
    have "is_letter (s ! k)" using km by (rule takeWhile_nth_holds)
    then have "\<not> is_digit (s ! k)" by (rule letter_not_digit)
    moreover have "s ! k \<in> set (drop k s)"
      using Cons_nth_drop_Suc [OF kl, symmetric] by (metis list.set_intros(1))
    ultimately show ?thesis unfolding f_def rmatch_digits_end by auto
  qed
  then have "first_some (map f (rev [0..<m])) = None"
    by (intro first_some_all_None) (auto simp del: set_rev set_upt)
  then have "first_some (map f (m # rev [0..<m])) = f m" by (rule first_some_head_only)
  moreover have "f m = (if dropWhile is_letter s \<noteq> [] \<and> (\<forall>c \<in> set (dropWhile is_letter s). is_digit c)
      then Some [takeWhile is_letter s, dropWhile is_letter s] else None)"
    unfolding f_def m_def take_takeWhile_length drop_takeWhile_length rmatch_digits_end by simp
  ultimately show ?thesis unfolding whole rv by simp
qed


lemma first_some_least:
  assumes "k0 < n" and "\<And>k. k < k0 \<Longrightarrow> f k = None" and "f k0 = Some y"
  shows "first_some (map f [0..<n]) = Some y"
proof -
  have "[0..<k0 + (n - k0)] = [0..<k0] @ [k0..<k0 + (n - k0)]"
    by (rule upt_add_eq_append) simp
  then have "[0..<n] = [0..<k0] @ [k0..<n]" using assms(1) by simp
  also have "[k0..<n] = k0 # [Suc k0..<n]" using assms(1) by (rule upt_conv_Cons)
  finally have split: "[0..<n] = [0..<k0] @ k0 # [Suc k0..<n]" .
  have "first_some (map f [0..<k0]) = None"
    by (rule first_some_all_None) (auto simp add: assms(2))
  then show ?thesis unfolding split by (simp add: first_some_append assms(3))
qed

lemma drop_split:
  "drop k s = drop k (before_digits s) @ drop (k - length (before_digits s)) (trailing_digits s)"
proof -
  have "drop k (before_digits s @ trailing_digits s)
          = drop k (before_digits s) @ drop (k - length (before_digits s)) (trailing_digits s)"
    by (rule drop_append)
  then show ?thesis by (simp only: before_trailing)
qed

lemma digits_suffix_iff:
  "(drop k s \<noteq> [] \<and> (\<forall>c \<in> set (drop k s). is_digit c))
     \<longleftrightarrow> (length (before_digits s) \<le> k \<and> k < length s)"
proof
  assume a: "drop k s \<noteq> [] \<and> (\<forall>c \<in> set (drop k s). is_digit c)"
  then have k: "k < length s" by simp
  have "length (before_digits s) \<le> k"
  proof (rule ccontr)
    assume "\<not> length (before_digits s) \<le> k"
    then have lt: "k < length (before_digits s)" by simp
    then have ne: "before_digits s \<noteq> []" by auto
    from lt have "drop k (before_digits s) \<noteq> []" by simp
    then have "last (drop k (before_digits s)) \<in> set (drop k (before_digits s))"
      by (rule last_in_set)
    moreover have "last (drop k (before_digits s)) = last (before_digits s)"
      using lt by (rule last_drop)
    moreover have "set (drop k (before_digits s)) \<subseteq> set (drop k s)"
      by (subst (2) drop_split) simp
    ultimately have "is_digit (last (before_digits s))" using a by auto
    with before_last_not_digit [OF ne] show False by simp
  qed
  with k show "length (before_digits s) \<le> k \<and> k < length s" by simp
next
  assume b: "length (before_digits s) \<le> k \<and> k < length s"
  then have "drop k s = drop (k - length (before_digits s)) (trailing_digits s)"
    by (subst drop_split) simp
  then have "set (drop k s) \<subseteq> set (trailing_digits s)" by (simp add: set_drop_subset)
  with b show "drop k s \<noteq> [] \<and> (\<forall>c \<in> set (drop k s). is_digit c)"
    using trailing_all_digits by auto
qed

lemma prefix_run_bound:
  "k \<le> length (takeWhile P s) \<longleftrightarrow> (k \<le> length s \<and> (\<forall>c \<in> set (take k s). P c))"
proof (induction s arbitrary: k)
  case Nil
  show ?case by simp
next
  case (Cons x xs)
  show ?case using Cons.IH by (cases k) auto
qed

lemma rmatch_lazy_digits:
  "rmatch [(Dot, LazyStar), (Digit, Plus)] True s =
     (if trailing_digits s \<noteq> [] \<and> (\<forall>c \<in> set (before_digits s). \<not> is_line_terminator c)
      then Some [before_digits s, trailing_digits s] else None)"
proof -
  define m where "m = length (takeWhile (\<lambda>c. \<not> is_line_terminator c) s)"
  define f where "f = (\<lambda>k. map_option ((#) (take k s)) (rmatch [(Digit, Plus)] True (drop k s)))"
  define k0 where "k0 = length (before_digits s)"
  have dot: "accepts Dot = (\<lambda>c. \<not> is_line_terminator c)" by (rule ext) simp
  have whole: "rmatch [(Dot, LazyStar), (Digit, Plus)] True s = first_some (map f [0..<Suc m])"
    unfolding f_def m_def by (simp only: rmatch.simps(2) counts.simps dot)
  have f_eq: "f k = (if k0 \<le> k \<and> k < length s then Some [take k s, drop k s] else None)" for k
    unfolding f_def rmatch_digits_end k0_def using digits_suffix_iff [of k s] by auto
  have "length (before_digits s @ trailing_digits s) = k0 + length (trailing_digits s)"
    by (simp add: k0_def)
  then have len: "length s = k0 + length (trailing_digits s)" by (simp only: before_trailing)
  have "take k0 (before_digits s @ trailing_digits s) = before_digits s"
    and "drop k0 (before_digits s @ trailing_digits s) = trailing_digits s"
    by (simp_all add: k0_def)
  then have tk: "take k0 s = before_digits s" and dk: "drop k0 s = trailing_digits s"
    by (simp_all only: before_trailing)
  have bound: "k0 \<le> m \<longleftrightarrow> (\<forall>c \<in> set (before_digits s). \<not> is_line_terminator c)"
    unfolding m_def prefix_run_bound using len tk by simp
  show ?thesis
  proof (cases "trailing_digits s \<noteq> [] \<and> (\<forall>c \<in> set (before_digits s). \<not> is_line_terminator c)")
    case True
    then have "k0 < Suc m" and "k0 < length s" using bound len by auto
    then have "first_some (map f [0..<Suc m]) = Some [take k0 s, drop k0 s]"
      by (intro first_some_least) (auto simp add: f_eq)
    then show ?thesis unfolding whole using True by (simp add: tk dk)
  next
    case False
    have "first_some (map f [0..<Suc m]) = None"
    proof (rule first_some_all_None)
      fix x assume "x \<in> set (map f [0..<Suc m])"
      then have "x \<in> f ` {0..<Suc m}" by (simp only: set_map set_upt)
      then obtain k where k: "k < Suc m" and x: "x = f k" by auto
      have "\<not> (k0 \<le> k \<and> k < length s)"
      proof
        assume kk: "k0 \<le> k \<and> k < length s"
        then have "trailing_digits s \<noteq> []" using len by auto
        moreover have "k0 \<le> m" using kk k by simp
        ultimately show False using False bound by simp
      qed
      then show "x = None" by (simp add: x f_eq)
    qed
    then show ?thesis unfolding whole using False by simp
  qed
qed

lemma letters_digits_split:
  assumes t: "trailing_digits s \<noteq> []" and b: "\<forall>c \<in> set (before_digits s). is_letter c"
  shows "takeWhile is_letter s = before_digits s \<and> dropWhile is_letter s = trailing_digits s"
proof -
  have "hd (trailing_digits s) \<in> set (trailing_digits s)" using t by (rule hd_in_set)
  then have "is_digit (hd (trailing_digits s))" by (rule trailing_all_digits)
  then have nl: "\<not> is_letter (hd (trailing_digits s))" using letter_not_digit by blast
  then have stop: "takeWhile is_letter (trailing_digits s) = []"
    "dropWhile is_letter (trailing_digits s) = trailing_digits s"
    using t by (cases "trailing_digits s"; simp)+
  have "takeWhile is_letter (before_digits s @ trailing_digits s) = before_digits s"
    using b stop by (simp add: takeWhile_append2)
  moreover have "dropWhile is_letter (before_digits s @ trailing_digits s) = trailing_digits s"
    using b stop by (simp add: dropWhile_append2)
  ultimately show ?thesis by (simp only: before_trailing)
qed

lemma letters_digits_iff:
  "(dropWhile is_letter s \<noteq> [] \<and> (\<forall>c \<in> set (dropWhile is_letter s). is_digit c))
     \<longleftrightarrow> (trailing_digits s \<noteq> [] \<and> (\<forall>c \<in> set (before_digits s). is_letter c))"
proof
  assume a: "dropWhile is_letter s \<noteq> [] \<and> (\<forall>c \<in> set (dropWhile is_letter s). is_digit c)"
  have last: "takeWhile is_letter s = [] \<or> \<not> is_digit (last (takeWhile is_letter s))"
  proof (cases "takeWhile is_letter s = []")
    case True
    then show ?thesis by simp
  next
    case False
    then have "last (takeWhile is_letter s) \<in> set (takeWhile is_letter s)" by (rule last_in_set)
    then have "is_letter (last (takeWhile is_letter s))" by (rule set_takeWhileD [THEN conjunct2])
    then show ?thesis using letter_not_digit by blast
  qed
  have "before_digits s = takeWhile is_letter s \<and> trailing_digits s = dropWhile is_letter s"
    by (rule split_digits_unique) (use a last in simp_all)
  with a show "trailing_digits s \<noteq> [] \<and> (\<forall>c \<in> set (before_digits s). is_letter c)"
    by (auto dest: set_takeWhileD)
next
  assume "trailing_digits s \<noteq> [] \<and> (\<forall>c \<in> set (before_digits s). is_letter c)"
  then show "dropWhile is_letter s \<noteq> [] \<and> (\<forall>c \<in> set (dropWhile is_letter s). is_digit c)"
    using letters_digits_split [of s] trailing_all_digits by auto
qed


lemma concat_singletons: "concat (map (\<lambda>c. [c]) p) = p"
  by (induction p) simp_all

lemma drop_pieces:
  assumes "length d = k" and "u = drop (length p + k + 1) t"
  shows "drop (length (concat (map (\<lambda>c. [c]) p @ [d, '':'', takeWhile is_space u]))) t
           = dropWhile is_space u"
proof -
  define a where "a = length p + k + 1"
  define b where "b = length (takeWhile is_space u)"
  have "length (concat (map (\<lambda>c. [c]) p @ [d, '':'', takeWhile is_space u])) = b + a"
    using assms(1) by (simp add: concat_singletons a_def b_def)
  moreover have "drop (b + a) t = drop b (drop a t)" by simp
  moreover have "drop a t = u" using assms(2) by (simp add: a_def)
  moreover have "drop b u = dropWhile is_space u" unfolding b_def by (rule drop_takeWhile_length)
  ultimately show ?thesis by simp
qed

lemma replace_idRegex:
  "replace_match (rmatch (idRegex p n) False t) t
     = (if begins_with_id p n t then dropWhile is_space (drop (length p + n + 1) t) else t)"
proof (cases "begins_with_id p n t")
  case False
  then show ?thesis by (simp add: rmatch_idRegex replace_match_def)
next
  case True
  define r where "r = drop (length p) t"
  define u where "u = drop (length p + n + 1) t"
  from True have "length (takeWhile is_digit r) = n"
    by (simp add: begins_with_id_def r_def Let_def)
  then have "n \<le> length r" using length_takeWhile_le [of is_digit r] by simp
  then have len: "length (take n r) = n" by simp
  have u: "drop (Suc n) r = u" by (simp add: u_def r_def ac_simps)
  have "rmatch (idRegex p n) False t = Some (map (\<lambda>c. [c]) p @ [take n r, '':'', takeWhile is_space u])"
    using True by (simp only: rmatch_idRegex if_True r_def [symmetric] u)
  then have "replace_match (rmatch (idRegex p n) False t) t = dropWhile is_space u"
    using drop_pieces [OF len u_def] by (simp add: replace_match_def)
  with True show ?thesis by (simp add: u_def)
qed

lemma replace_prefixRegex:
  "replace_match (rmatch (prefixRegex p) False t) t
     = (if begins_with_number p t
        then dropWhile is_space
               (drop (length p + length (takeWhile is_digit (drop (length p) t)) + 1) t)
        else t)"
proof (cases "begins_with_number p t")
  case False
  then show ?thesis by (simp add: rmatch_prefixRegex replace_match_def)
next
  case True
  define r where "r = drop (length p) t"
  define m where "m = length (takeWhile is_digit r)"
  define u where "u = drop (length p + m + 1) t"
  have len: "length (takeWhile is_digit r) = m" by (simp add: m_def)
  have u: "drop (Suc m) r = u" by (simp add: u_def r_def ac_simps)
  have "rmatch (prefixRegex p) False t
          = Some (map (\<lambda>c. [c]) p @ [takeWhile is_digit r, '':'', takeWhile is_space u])"
    using True by (simp only: rmatch_prefixRegex if_True r_def [symmetric] m_def [symmetric] u)
  then have "replace_match (rmatch (prefixRegex p) False t) t = dropWhile is_space u"
    using drop_pieces [OF len u_def] by (simp add: replace_match_def)
  with True show ?thesis by (simp add: u_def m_def r_def)
qed



section \<open>Seed parsing and identifier matching\<close>

text \<open>
  The seeds the two parsers accept. \<open>getIdPrefix\<close> (compare) succeeds on every seed that
  ends in a run of digits with no line terminator before that run, and returns everything
  before the final run of digits as the prefix and the length of the run as the width; it
  fails with \<open>InvalidSeedFormat\<close> otherwise. \<open>parseBaseId\<close> (add) succeeds exactly when the
  seed is a run of letters, possibly empty, followed by a run of digits that ends the
  seed, and then returns the letters as the prefix and the length of the run as the
  width; it fails with \<open>InvalidSeedFormat\<close> otherwise. Its number is the value of the
  digits, here for a run of at most 15 digits, which is below \<open>2 ^ 53\<close>.
\<close>

lemma getIdPrefix_accepts:
  "getIdPrefix s =
     (if trailing_digits s \<noteq> [] \<and> (\<forall>c \<in> set (before_digits s). \<not> is_line_terminator c)
      then Inr (before_digits s, length (trailing_digits s)) else Inl InvalidSeedFormat)"
  unfolding getIdPrefix_def rmatch_lazy_digits by simp

lemma parseBaseId_accepts:
  "map_sum (\<lambda>e. e) (\<lambda>(p, b, n). (p, n)) (parseBaseId s) =
     (if trailing_digits s \<noteq> [] \<and> (\<forall>c \<in> set (before_digits s). is_letter c)
      then Inr (before_digits s, length (trailing_digits s)) else Inl InvalidSeedFormat)"
proof (cases "trailing_digits s \<noteq> [] \<and> (\<forall>c \<in> set (before_digits s). is_letter c)")
  case True
  then have "takeWhile is_letter s = before_digits s \<and> dropWhile is_letter s = trailing_digits s"
    using letters_digits_split by blast
  with True show ?thesis
    unfolding parseBaseId_def rmatch_letters_digits letters_digits_iff by simp
next
  case False
  then have "(trailing_digits s \<noteq> [] \<and> (\<forall>c \<in> set (before_digits s). is_letter c)) = False"
    by blast
  then show ?thesis
    unfolding parseBaseId_def rmatch_letters_digits letters_digits_iff
    by (simp only: if_False sum.case option.case map_sum.simps)
qed

lemma parseInt_less:
  "\<forall>c \<in> set ds. is_digit c \<Longrightarrow> parseInt ds < 10 ^ length ds"
proof (induction ds rule: rev_induct)
  case Nil
  then show ?case by (simp add: parseInt_def)
next
  case (snoc c ds)
  then have "is_digit c" by simp
  then have "digit_val c \<le> 9" by (auto simp add: is_digit_def digit_val_def)
  moreover from snoc have "parseInt ds < 10 ^ length ds" by simp
  ultimately show ?case by (simp add: parseInt_snoc)
qed

lemma parseBaseId_number:
  assumes "parseBaseId s = Inr (p, b, n)" and "n \<le> 15"
  shows "b = parseInt (trailing_digits s) \<and> n = length (trailing_digits s) \<and> b < 2 ^ 53"
proof -
  from assms(1) have ok: "dropWhile is_letter s \<noteq> [] \<and> (\<forall>c \<in> set (dropWhile is_letter s). is_digit c)"
    unfolding parseBaseId_def rmatch_letters_digits by (simp split: if_splits)
  then have "trailing_digits s \<noteq> [] \<and> (\<forall>c \<in> set (before_digits s). is_letter c)"
    using letters_digits_iff [of s] by blast
  then have sp: "dropWhile is_letter s = trailing_digits s"
    using letters_digits_split by blast
  from assms(1) ok have b: "b = parseInt (dropWhile is_letter s)" and n: "n = length (dropWhile is_letter s)"
    unfolding parseBaseId_def rmatch_letters_digits by simp_all
  from ok have "parseInt (dropWhile is_letter s) < 10 ^ length (dropWhile is_letter s)"
    by (intro parseInt_less) simp
  also have "(10::nat) ^ length (dropWhile is_letter s) \<le> 10 ^ 15"
    using assms(2) n by (intro power_increasing) simp_all
  also have "(10::nat) ^ 15 < 2 ^ 53" by simp
  finally show ?thesis using b n sp by simp
qed

text \<open>
  Claim C4 on the seed \<open>e2e-007\<close>, which ends in the run of digits \<open>007\<close> after \<open>e2e-\<close>:
  \<open>getIdPrefix\<close> gives the prefix \<open>e2e-\<close> and the width 3; \<open>parseBaseId\<close> of add fails with
  \<open>InvalidSeedFormat\<close>, as it does on the seed \<open>e2e-001\<close> with which the README calls add.
\<close>

theorem seed_with_digit_in_prefix_rejected:
  "trailing_digits ''e2e-007'' = ''007'' \<and> before_digits ''e2e-007'' = ''e2e-''
     \<and> getIdPrefix ''e2e-007'' = Inr (''e2e-'', 3)
     \<and> parseBaseId ''e2e-007'' = Inl InvalidSeedFormat
     \<and> parseBaseId ''e2e-001'' = Inl InvalidSeedFormat
     \<and> parseBaseId ''T007'' = Inr (''T'', 7, 3)"
  by code_simp


text \<open>
  Claim C5, as the code has it. For a plain prefix: the matcher of add and of \<open>cleanFile\<close>
  matches a title exactly when the title begins with the prefix, then exactly \<open>n\<close> digits,
  then a colon; the matcher of compare and of the first clean command matches exactly when
  the title begins with the prefix, then one or more digits, then a colon. In both, the
  match also takes the white space after the colon, so that removing the match leaves the
  title from the first character that is not white space.
\<close>

theorem matcher_shapes:
  assumes "plain p"
  shows "(rmatch (idRegex p n) False t \<noteq> None \<longleftrightarrow> begins_with_id p n t)
       \<and> replace_match (rmatch (idRegex p n) False t) t
           = (if begins_with_id p n t then dropWhile is_space (drop (length p + n + 1) t) else t)
       \<and> (rmatch (prefixRegex p) False t \<noteq> None \<longleftrightarrow> begins_with_number p t)
       \<and> replace_match (rmatch (prefixRegex p) False t) t
           = (if begins_with_number p t
              then dropWhile is_space
                     (drop (length p + length (takeWhile is_digit (drop (length p) t)) + 1) t)
              else t)"
proof (intro conjI)
  show "rmatch (idRegex p n) False t \<noteq> None \<longleftrightarrow> begins_with_id p n t"
    by (simp add: rmatch_idRegex)
  show "rmatch (prefixRegex p) False t \<noteq> None \<longleftrightarrow> begins_with_number p t"
    by (simp add: rmatch_prefixRegex)
qed (rule replace_idRegex, rule replace_prefixRegex)

text \<open>Three and four digits after the prefix \<open>e2e-\<close>.\<close>

theorem matcher_shapes_witness:
  "plain ''e2e-'' \<and> rmatch (idRegex ''e2e-'' 3) False ''e2e-007:  login'' \<noteq> None
     \<and> replace_match (rmatch (idRegex ''e2e-'' 3) False ''e2e-007:  login'') ''e2e-007:  login'' = ''login''
     \<and> rmatch (idRegex ''e2e-'' 3) False ''e2e-0007: login'' = None
     \<and> rmatch (prefixRegex ''e2e-'') False ''e2e-0007: login'' \<noteq> None"
proof -
  have p: "plain ''e2e-''" by (simp add: plain_def)
  have a: "begins_with_id ''e2e-'' 3 ''e2e-007:  login''" by code_simp
  have b: "\<not> begins_with_id ''e2e-'' 3 ''e2e-0007: login''" by code_simp
  have c: "begins_with_number ''e2e-'' ''e2e-0007: login''" by code_simp
  have d: "dropWhile is_space (drop (length ''e2e-'' + 3 + 1) ''e2e-007:  login'') = ''login''"
    by code_simp
  note m1 = matcher_shapes [OF p, of 3 "''e2e-007:  login''"]
  note m2 = matcher_shapes [OF p, of 3 "''e2e-0007: login''"]
  have "rmatch (idRegex ''e2e-'' 3) False ''e2e-007:  login'' \<noteq> None" using m1 a by blast
  moreover have "replace_match (rmatch (idRegex ''e2e-'' 3) False ''e2e-007:  login'') ''e2e-007:  login''
                   = ''login''"
    using m1 [THEN conjunct2, THEN conjunct1] by (simp only: a if_True d)
  moreover have "rmatch (idRegex ''e2e-'' 3) False ''e2e-0007: login'' = None" using m2 b by blast
  moreover have "rmatch (prefixRegex ''e2e-'') False ''e2e-0007: login'' \<noteq> None" using m2 c by blast
  ultimately show ?thesis using p by blast
qed

text \<open>
  With the seed \<open>e2e-001\<close>, of width 3, compare takes the identifier \<open>e2e-0001\<close> of four
  digits from a title.
\<close>

theorem compare_matches_other_widths:
  "getIdPrefix ''e2e-001'' = Inr (''e2e-'', 3)
     \<and> extracted ''e2e-'' ''e2e-0001: x'' = [(1, ''e2e-0001'')]
     \<and> \<not> begins_with_id ''e2e-'' 3 ''e2e-0001: x''"
  by code_simp


section \<open>Traversal of the rewrite and of the scan\<close>

lemma found_empty_title: "found c f [] = []"
  by (simp add: found_def rmatch_idRegex begins_with_id_def)

lemma scan_title_ineligible: "literal_title a = None \<Longrightarrow> scan_title a = []"
  by (cases a) (simp_all split: if_splits)

lemma parse_node_isTest: "isTest callee \<Longrightarrow> parse_node c f callee = []"
  by (cases callee) simp_all

text \<open>
  Claim C10. In the rewrite of add, at a test declaration whose first argument is absent
  or is not an eligible literal, the visitor returns without traversing the call: the
  call comes back as it was and the state is unchanged, so that no declaration inside its
  arguments is given an identifier. The scan does traverse the arguments of the same call
  and records what it finds there.
\<close>

theorem rewrite_stops_where_scan_goes_on:
  assumes "isTest callee" and "args = [] \<or> literal_title (hd args) = None"
  shows "transform_node c b (CallExpression callee args) w = (CallExpression callee args, w)
       \<and> parse_node c f (CallExpression callee args) = parse_nodes c f args"
proof (cases args)
  case Nil
  with assms(1) show ?thesis by simp
next
  case (Cons a rest)
  with assms(2) have none: "literal_title a = None" by simp
  then have "found c f (scan_title a) = []"
    by (simp add: scan_title_ineligible found_empty_title)
  with assms(1) none Cons show ?thesis by (simp add: parse_node_isTest)
qed

text \<open>
  A declaration with a variable as its title and two declarations in its body: the scan
  records \<open>T001\<close>, the rewrite leaves the title \<open>b\<close> without an identifier.
\<close>

theorem rewrite_stops_where_scan_goes_on_witness:
  "isTest (Identifier ''it'')
   \<and> literal_title (hd [Identifier ''name'',
         Other [CallExpression (Identifier ''it'') [StringLiteral ''T001: a''],
                CallExpression (Identifier ''it'') [StringLiteral ''b'']]]) = None
   \<and> transform_node \<lparr>prefix = ''T'', baseNumber = 1, numberLength = 3, overwriteExistingIds = False\<rparr> 1
        (CallExpression (Identifier ''it'')
           [Identifier ''name'',
            Other [CallExpression (Identifier ''it'') [StringLiteral ''T001: a''],
                   CallExpression (Identifier ''it'') [StringLiteral ''b'']]])
        \<lparr>usedIds = [''T001''], localInc = 0, fileChanged = False, history = []\<rparr>
      = (CallExpression (Identifier ''it'')
           [Identifier ''name'',
            Other [CallExpression (Identifier ''it'') [StringLiteral ''T001: a''],
                   CallExpression (Identifier ''it'') [StringLiteral ''b'']]],
         \<lparr>usedIds = [''T001''], localInc = 0, fileChanged = False, history = []\<rparr>)
   \<and> parse_node \<lparr>prefix = ''T'', baseNumber = 1, numberLength = 3, overwriteExistingIds = False\<rparr> ''a.js''
        (CallExpression (Identifier ''it'')
           [Identifier ''name'',
            Other [CallExpression (Identifier ''it'') [StringLiteral ''T001: a''],
                   CallExpression (Identifier ''it'') [StringLiteral ''b'']]])
      = [(''T001'', ''T001: a'', ''a.js'')]"
proof -
  have t: "isTest (Identifier ''it'')" by simp
  have e: "literal_title (hd [Identifier ''name'',
         Other [CallExpression (Identifier ''it'') [StringLiteral ''T001: a''],
                CallExpression (Identifier ''it'') [StringLiteral ''b'']]]) = None" by simp
  have s: "parse_nodes \<lparr>prefix = ''T'', baseNumber = 1, numberLength = 3, overwriteExistingIds = False\<rparr> ''a.js''
           [Identifier ''name'',
            Other [CallExpression (Identifier ''it'') [StringLiteral ''T001: a''],
                   CallExpression (Identifier ''it'') [StringLiteral ''b'']]]
      = [(''T001'', ''T001: a'', ''a.js'')]" by code_simp
  show ?thesis
    using rewrite_stops_where_scan_goes_on [OF t disjI2 [OF e]] t e s by simp
qed

section \<open>The duplicate check of add\<close>

text \<open>
  The registry holds each identifier of the scan once, with all the pairs that bear it.
  When some identifier is borne by more than one occurrence, the add command reports
  exactly the identifiers with more than one occurrence, each with all its pairs, and
  ends with every file as it was and nothing written.
\<close>

lemma keys_register:
  "map fst (register reg (i, t, f)) = (if i \<in> set (map fst reg) then map fst reg else map fst reg @ [i])"
  by (auto simp add: register_def split_beta intro!: map_idI)

lemma map_of_register:
  "map_of (register reg (i, t, f)) k =
     (if k = i then Some ((case map_of reg i of None \<Rightarrow> [] | Some l \<Rightarrow> l) @ [(f, t)]) else map_of reg k)"
proof (cases "i \<in> set (map fst reg)")
  case False
  then have none: "map_of reg i = None" by (simp add: map_of_eq_None_iff)
  have "map_of (reg @ [(i, [(f, t)])]) k = (case map_of reg k of None \<Rightarrow> map_of [(i, [(f, t)])] k | Some v \<Rightarrow> Some v)"
    by (auto simp add: map_add_def split: option.splits)
  with False none show ?thesis by (auto simp add: register_def split: option.splits)
next
  case True
  have "map_of (map (\<lambda>(k', l). if k' = i then (k', l @ [(f, t)]) else (k', l)) reg) k =
          (if k = i then map_option (\<lambda>l. l @ [(f, t)]) (map_of reg i) else map_of reg k)"
    by (induction reg) auto
  moreover from True obtain l where "map_of reg i = Some l"
    by (metis map_of_eq_None_iff not_None_eq set_map)
  ultimately show ?thesis using True by (simp add: register_def)
qed

lemma bearing_Cons:
  "bearing i ((j, t, f) # occs) = (if j = i then (f, t) # bearing i occs else bearing i occs)"
  by (simp add: bearing_def)

lemma registry_distinct:
  "distinct (map fst reg) \<Longrightarrow> distinct (map fst (foldl register reg occs))"
proof (induction occs arbitrary: reg)
  case Nil
  then show ?case by simp
next
  case (Cons occ occs)
  obtain j t f where occ: "occ = (j, t, f)" by (cases occ)
  from Cons.prems have "distinct (map fst (register reg occ))" unfolding occ keys_register by simp
  then show ?case using Cons.IH by simp
qed

lemma registry_lookup:
  "map_of (foldl register reg occs) i =
     (if i \<in> fst ` set reg \<union> fst ` set occs
      then Some ((case map_of reg i of None \<Rightarrow> [] | Some l \<Rightarrow> l) @ bearing i occs) else None)"
proof (induction occs arbitrary: reg)
  case Nil
  show ?case
  proof (cases "map_of reg i")
    case None
    then show ?thesis by (simp add: bearing_def map_of_eq_None_iff)
  next
    case (Some l)
    then have "i \<in> fst ` set reg" by (metis map_of_eq_None_iff option.distinct(1))
    with Some show ?thesis by (simp add: bearing_def)
  qed
next
  case (Cons occ occs)
  obtain j t f where occ: "occ = (j, t, f)" by (cases occ)
  have "set (map fst (register reg (j, t, f))) = insert j (set (map fst reg))"
    unfolding keys_register by auto
  then have keys: "fst ` set (register reg (j, t, f)) = insert j (fst ` set reg)" by simp
  note IH = Cons.IH [of "register reg (j, t, f)", unfolded keys map_of_register]
  have fold: "foldl register reg (occ # occs) = foldl register (register reg (j, t, f)) occs"
    by (simp add: occ)
  have ks: "fst ` set (occ # occs) = insert j (fst ` set occs)" by (simp add: occ)
  show ?case
  proof (cases "i = j")
    case True
    from IH True have "map_of (foldl register (register reg (j, t, f)) occs) i
        = Some (((case map_of reg j of None \<Rightarrow> [] | Some l \<Rightarrow> l) @ [(f, t)]) @ bearing j occs)"
      by simp
    then show ?thesis
      unfolding fold ks occ bearing_Cons using True by simp
  next
    case False
    from IH False have "map_of (foldl register (register reg (j, t, f)) occs) i
        = (if i \<in> fst ` set reg \<union> fst ` set occs
           then Some ((case map_of reg i of None \<Rightarrow> [] | Some l \<Rightarrow> l) @ bearing i occs) else None)"
      by simp
    then show ?thesis
      unfolding fold ks occ bearing_Cons using False by auto
  qed
qed

lemma add_blocks_on_duplicates:
  assumes "parseBaseId baseId = Inr (p, b, n)" and "fs \<noteq> []"
    and "occs = concat (map (parseTestIdsFromFile
                  \<lparr>prefix = p, baseNumber = b, numberLength = n, overwriteExistingIds = ow\<rparr>) fs)"
    and "\<exists>i. 1 < length (bearing i occs)"
  shows "\<exists>dups. main_add baseId ow fs = \<lparr>outcome = Blocked dups, files_after = fs, written = []\<rparr>
           \<and> (\<forall>i l. (i, l) \<in> set dups \<longleftrightarrow> (l = bearing i occs \<and> 1 < length l))"
proof -
  define reg where "reg = foldl register [] occs"
  define dups where "dups = filter (\<lambda>(i, l). length l > 1) reg"
  have dist: "distinct (map fst reg)" unfolding reg_def by (rule registry_distinct) simp
  have look: "map_of reg i = (if i \<in> fst ` set occs then Some (bearing i occs) else None)" for i
    unfolding reg_def by (simp add: registry_lookup)
  have mem: "(i, l) \<in> set dups \<longleftrightarrow> (l = bearing i occs \<and> 1 < length l)" for i l
  proof -
    have "(i, l) \<in> set reg \<longleftrightarrow> map_of reg i = Some l" using dist by simp
    also have "\<dots> \<longleftrightarrow> (i \<in> fst ` set occs \<and> l = bearing i occs)" by (auto simp add: look)
    finally have r: "(i, l) \<in> set reg \<longleftrightarrow> (i \<in> fst ` set occs \<and> l = bearing i occs)" .
    have "bearing i occs = []" if "i \<notin> fst ` set occs"
      using that by (auto simp add: bearing_def filter_empty_conv)
    then have "1 < length (bearing i occs) \<Longrightarrow> i \<in> fst ` set occs" by fastforce
    with r show ?thesis by (auto simp add: dups_def)
  qed
  from assms(4) obtain i where "1 < length (bearing i occs)" by blast
  with mem have "(i, bearing i occs) \<in> set dups" by simp
  then have ne: "dups \<noteq> []" by auto
  have "main_add baseId ow fs = \<lparr>outcome = Blocked dups, files_after = fs, written = []\<rparr>"
    using ne assms(2)
    by (simp only: main_add_def assms(1) sum.case prod.case Let_def assms(3) [symmetric]
                   reg_def [symmetric] dups_def [symmetric]) simp
  with mem show ?thesis by blast
qed


section \<open>Allocation\<close>

text \<open>
  The loop of the allocation ends one past the first number, from the one it starts at,
  whose identifier is not used, and picks that identifier.
\<close>

lemma next_free_spec:
  "next_free p w used n = (i, m) \<Longrightarrow>
     n < m \<and> i = formatId p w (m - 1) \<and> i \<notin> set used
     \<and> (\<forall>k. n \<le> k \<and> k < m - 1 \<longrightarrow> formatId p w k \<in> set used)"
proof (induction p w used n rule: next_free.induct)
  case (1 p w used newBase)
  show ?case
  proof (cases "formatId p w newBase \<in> set used")
    case False
    with "1.prems" have "i = formatId p w newBase" and "m = Suc newBase"
      by (simp_all add: next_free.simps [of p w used newBase])
    with False show ?thesis by auto
  next
    case True
    with "1.prems" have r: "next_free p w used (Suc newBase) = (i, m)"
      by (simp add: next_free.simps [of p w used newBase])
    note IH = "1.IH" [OF refl True r]
    have range: "\<forall>k. newBase \<le> k \<and> k < m - 1 \<longrightarrow> formatId p w k \<in> set used"
    proof (intro allI impI)
      fix k assume k: "newBase \<le> k \<and> k < m - 1"
      show "formatId p w k \<in> set used"
      proof (cases "k = newBase")
        case True
        then show ?thesis using \<open>formatId p w newBase \<in> set used\<close> by simp
      next
        case False
        with k have "Suc newBase \<le> k \<and> k < m - 1" by simp
        with IH show ?thesis by blast
      qed
    qed
    from IH have "newBase < m" by simp
    moreover from IH have "i = formatId p w (m - 1)" by blast
    moreover from IH have "i \<notin> set used" by blast
    ultimately show ?thesis using range by blast
  qed
qed

text \<open>
  When the seed is accepted, some file matched and the scan shows no duplicate, add is the
  loop over the files, started with the identifiers of the scan.
\<close>

lemma main_add_completed:
  assumes "parseBaseId baseId = Inr (p, b, n)" and "fs \<noteq> []"
    and "c = \<lparr>prefix = p, baseNumber = b, numberLength = n, overwriteExistingIds = ow\<rparr>"
    and "reg = foldl register [] (concat (map (parseTestIdsFromFile c) fs))"
    and "filter (\<lambda>(i, l). length l > 1) reg = []"
  shows "main_add baseId ow fs =
           \<lparr>outcome = Completed, files_after = fst (transform_files c fs (map fst reg) 0 []),
            written = fst (snd (transform_files c fs (map fst reg) 0 []))\<rparr>"
  by (simp only: main_add_def assms(1) sum.case prod.case Let_def assms(3) [symmetric]
                 assms(4) [symmetric] assms(5))
     (simp add: assms(2) split_beta)

text \<open>
  The keys of the registry are the identifiers of the occurrences of the scan, and there
  are no more keys than occurrences. A run that completes had files and no duplicate.
\<close>

lemma registry_keys:
  "set (map fst (foldl register reg occs)) = set (map fst reg) \<union> fst ` set occs"
proof (induction occs arbitrary: reg)
  case Nil
  show ?case by simp
next
  case (Cons occ occs)
  obtain j t f where occ: "occ = (j, t, f)" by (cases occ)
  have "set (map fst (register reg occ)) = insert j (set (map fst reg))"
    unfolding occ keys_register by auto
  then show ?case using Cons.IH [of "register reg occ"] by (simp add: occ)
qed

lemma registry_length:
  "length (foldl register reg occs) \<le> length reg + length occs"
proof (induction occs arbitrary: reg)
  case Nil
  show ?case by simp
next
  case (Cons occ occs)
  obtain j t f where occ: "occ = (j, t, f)" by (cases occ)
  have "length (map fst (register reg occ)) \<le> Suc (length reg)"
    unfolding occ keys_register by simp
  then have "length (register reg occ) \<le> Suc (length reg)" by simp
  with Cons.IH [of "register reg occ"] show ?case by simp
qed

lemma main_add_Completed:
  assumes "outcome (main_add baseId ow fs) = Completed"
    and "parseBaseId baseId = Inr (p, b, n)"
    and "c = \<lparr>prefix = p, baseNumber = b, numberLength = n, overwriteExistingIds = ow\<rparr>"
    and "reg = foldl register [] (concat (map (parseTestIdsFromFile c) fs))"
  shows "fs \<noteq> [] \<and> filter (\<lambda>(i, l). length l > 1) reg = []"
proof -
  have ne: "fs \<noteq> []"
  proof
    assume "fs = []"
    then have "outcome (main_add baseId ow fs) = NoFilesMatched"
      by (simp add: main_add_def assms(2))
    with assms(1) show False by simp
  qed
  have "filter (\<lambda>(i, l). length l > 1) reg = []"
  proof (rule ccontr)
    assume d: "filter (\<lambda>(i, l). length l > 1) reg \<noteq> []"
    have "outcome (main_add baseId ow fs) = Blocked (filter (\<lambda>(i, l). length l > 1) reg)"
      using ne d
      by (simp only: main_add_def assms(2) sum.case prod.case Let_def assms(3) [symmetric]
                     assms(4) [symmetric]) simp
    with assms(1) show False by simp
  qed
  with ne show ?thesis by simp
qed

lemma run_inv_initial: "run_inv p n ks b b ks []"
  unfolding run_inv_def by auto

text \<open>
  The invariant of a run. One allocation keeps it: the loop starts at the cursor, ends one
  past the number of the identifier it picks, the numbers it passes have used
  identifiers, and the identifier it picks is not used and is added to the set.
\<close>

lemma run_inv_step:
  assumes inv: "run_inv p n ks b0 cur used h"
    and nf: "next_free p n used cur = (i, m)"
  shows "run_inv p n ks b0 m (Set_add i used)
           (h @ [\<lparr>first_candidate = cur, used_before = used, allocated = i, cursor_after = m\<rparr>])"
proof -
  let ?e = "\<lparr>first_candidate = cur, used_before = used, allocated = i, cursor_after = m\<rparr>"
  note sp = next_free_spec [OF nf]
  from sp have lt: "cur < m" and i: "i = formatId p n (m - 1)" and fresh: "i \<notin> set used"
    and skipped: "\<forall>k. cur \<le> k \<and> k < m - 1 \<longrightarrow> formatId p n k \<in> set used"
    by blast+
  from inv have used: "used = ks @ map allocated h"
    and cur: "cur = (if h = [] then b0 else cursor_after (last h))"
    and range: "\<forall>k. b0 \<le> k \<and> k < cur \<longrightarrow> formatId p n k \<in> set used"
    and old: "\<forall>j < length h.
            first_candidate (h ! j) = (if j = 0 then b0 else cursor_after (h ! (j - 1)))
            \<and> first_candidate (h ! j) < cursor_after (h ! j)
            \<and> used_before (h ! j) = ks @ map allocated (take j h)
            \<and> allocated (h ! j) = formatId p n (cursor_after (h ! j) - 1)
            \<and> allocated (h ! j) \<notin> set (used_before (h ! j))
            \<and> (\<forall>k. first_candidate (h ! j) \<le> k \<and> k < cursor_after (h ! j) - 1
                   \<longrightarrow> formatId p n k \<in> set (used_before (h ! j)))"
    unfolding run_inv_def by blast+
  have add: "Set_add i used = used @ [i]" using fresh by (simp add: Set_add_def)
  have c1: "Set_add i used = ks @ map allocated (h @ [?e])" unfolding add by (simp add: used)
  have c2: "m = (if h @ [?e] = [] then b0 else cursor_after (last (h @ [?e])))" by simp
  have c3: "\<forall>k. b0 \<le> k \<and> k < m \<longrightarrow> formatId p n k \<in> set (Set_add i used)"
    unfolding add
  proof (intro allI impI)
    fix k assume k: "b0 \<le> k \<and> k < m"
    consider "k < cur" | "cur \<le> k \<and> k < m - 1" | "k = m - 1" using k by linarith
    then show "formatId p n k \<in> set (used @ [i])"
    proof cases
      case 1
      with k range show ?thesis by simp
    next
      case 2
      with skipped show ?thesis by simp
    next
      case 3
      then show ?thesis by (simp add: i)
    qed
  qed
  have c4: "\<forall>j < length (h @ [?e]).
            first_candidate ((h @ [?e]) ! j) = (if j = 0 then b0 else cursor_after ((h @ [?e]) ! (j - 1)))
            \<and> first_candidate ((h @ [?e]) ! j) < cursor_after ((h @ [?e]) ! j)
            \<and> used_before ((h @ [?e]) ! j) = ks @ map allocated (take j (h @ [?e]))
            \<and> allocated ((h @ [?e]) ! j) = formatId p n (cursor_after ((h @ [?e]) ! j) - 1)
            \<and> allocated ((h @ [?e]) ! j) \<notin> set (used_before ((h @ [?e]) ! j))
            \<and> (\<forall>k. first_candidate ((h @ [?e]) ! j) \<le> k \<and> k < cursor_after ((h @ [?e]) ! j) - 1
                   \<longrightarrow> formatId p n k \<in> set (used_before ((h @ [?e]) ! j)))"
  proof (intro allI impI)
    fix j assume j: "j < length (h @ [?e])"
    show "first_candidate ((h @ [?e]) ! j) = (if j = 0 then b0 else cursor_after ((h @ [?e]) ! (j - 1)))
            \<and> first_candidate ((h @ [?e]) ! j) < cursor_after ((h @ [?e]) ! j)
            \<and> used_before ((h @ [?e]) ! j) = ks @ map allocated (take j (h @ [?e]))
            \<and> allocated ((h @ [?e]) ! j) = formatId p n (cursor_after ((h @ [?e]) ! j) - 1)
            \<and> allocated ((h @ [?e]) ! j) \<notin> set (used_before ((h @ [?e]) ! j))
            \<and> (\<forall>k. first_candidate ((h @ [?e]) ! j) \<le> k \<and> k < cursor_after ((h @ [?e]) ! j) - 1
                   \<longrightarrow> formatId p n k \<in> set (used_before ((h @ [?e]) ! j)))"
    proof (cases "j < length h")
      case True
      then have nth: "(h @ [?e]) ! j = h ! j" and prev: "(h @ [?e]) ! (j - 1) = h ! (j - 1)"
        and tk: "take j (h @ [?e]) = take j h"
        by (simp_all add: nth_append)
      from old True show ?thesis unfolding nth prev tk by blast
    next
      case False
      with j have jl: "j = length h" by simp
      have nth: "(h @ [?e]) ! j = ?e" by (simp add: jl)
      have tk: "take j (h @ [?e]) = h" by (simp add: jl)
      have first: "cur = (if j = 0 then b0 else cursor_after ((h @ [?e]) ! (j - 1)))"
      proof (cases "h = []")
        case True
        with cur jl show ?thesis by simp
      next
        case False
        then have "(h @ [?e]) ! (j - 1) = last h" by (simp add: jl nth_append last_conv_nth)
        with cur False jl show ?thesis by simp
      qed
      show ?thesis
        unfolding nth tk using first lt used i fresh skipped by simp
    qed
  qed
  show ?thesis unfolding run_inv_def using c1 c2 c3 c4 by blast
qed

lemma visit_title_inv:
  assumes "run_inv (prefix c) (numberLength c) ks b0 (b + localInc w) (usedIds w) (history w)"
  shows "run_inv (prefix c) (numberLength c) ks b0 (b + localInc (snd (visit_title c b t w)))
           (usedIds (snd (visit_title c b t w))) (history (snd (visit_title c b t w)))"
proof (cases "rmatch (idRegex (prefix c) (numberLength c)) False t \<noteq> None \<and> \<not> overwriteExistingIds c")
  case True
  then have "visit_title c b t w = (None, w)" by (simp add: visit_title_def)
  with assms show ?thesis by simp
next
  case False
  obtain i m where nf: "next_free (prefix c) (numberLength c) (usedIds w) (b + localInc w) = (i, m)"
    by (cases "next_free (prefix c) (numberLength c) (usedIds w) (b + localInc w)")
  from next_free_spec [OF nf] have "b + localInc w < m" by blast
  then have m: "b + (m - b) = m" by simp
  have v: "snd (visit_title c b t w) =
     w\<lparr>usedIds := Set_add i (usedIds w), localInc := m - b, fileChanged := True,
       history := history w @
         [\<lparr>first_candidate = b + localInc w, used_before = usedIds w,
           allocated = i, cursor_after = m\<rparr>]\<rparr>"
    using False by (auto simp add: visit_title_def nf Let_def)
  show ?thesis
    unfolding v using run_inv_step [OF assms nf] by (simp add: m)
qed

lemma visit_title_count:
  "length (history (snd (visit_title c b t w))) \<le> Suc (length (history w))"
  by (simp add: visit_title_def Let_def split_beta)

text \<open>
  What every visit of a title keeps, the traversal of a tree keeps; and the traversal
  allocates at most once for each call expression.
\<close>

lemma transform_node_preserves:
  "(\<And>t w. P w \<Longrightarrow> P (snd (visit_title c b t w))) \<Longrightarrow> P w \<Longrightarrow> P (snd (transform_node c b n w))"
  "(\<And>t w. P w \<Longrightarrow> P (snd (visit_title c b t w))) \<Longrightarrow> P w \<Longrightarrow> P (snd (transform_nodes c b ns w))"
proof (induction c b n w and c b ns w rule: transform_node_transform_nodes.induct)
  case (1 c b callee args w)
  have step: "P (snd (visit_title c b t' w'))" if "P w'" for t' w'
    using that by (rule "1.prems"(1))
  note start = "1.prems"(2)
  show ?case
  proof (cases "isTest callee")
    case True
    show ?thesis
    proof (cases args)
      case Nil
      with True start show ?thesis by simp
    next
      case (Cons firstArg rest)
      show ?thesis
      proof (cases "literal_title firstArg")
        case None
        with True Cons start show ?thesis by simp
      next
        case (Some title)
        obtain ft w1 where v: "visit_title c b title w = (ft, w1)" by (cases "visit_title c b title w")
        have "P (snd (visit_title c b title w))" using start by (rule step)
        then have w1: "P w1" by (simp add: v)
        have "P (snd (transform_nodes c b rest w1))"
        proof (rule "1.IH"(1) [OF True Cons Some v [symmetric] refl refl])
          show "P w1" by (rule w1)
          show "P (snd (visit_title c b t' w'))" if "P w'" for t' w' using that by (rule step)
        qed
        then show ?thesis using True Cons Some v by (simp add: split_beta Let_def)
      qed
    qed
  next
    case False
    obtain callee' w1 where t: "transform_node c b callee w = (callee', w1)"
      by (cases "transform_node c b callee w")
    have "P (snd (transform_node c b callee w))"
    proof (rule "1.IH"(2) [OF False])
      show "P w" by (rule start)
      show "P (snd (visit_title c b t' w'))" if "P w'" for t' w' using that by (rule step)
    qed
    then have w1: "P w1" by (simp add: t)
    have "P (snd (transform_nodes c b args w1))"
    proof (rule "1.IH"(3) [OF False t [symmetric] refl])
      show "P w1" by (rule w1)
      show "P (snd (visit_title c b t' w'))" if "P w'" for t' w' using that by (rule step)
    qed
    then show ?thesis using False t by (simp add: split_beta Let_def)
  qed
next
  case (2 c b ob pr w)
  have step: "P (snd (visit_title c b t' w'))" if "P w'" for t' w'
    using that by (rule "2.prems"(1))
  note start = "2.prems"(2)
  obtain ob' w1 where t: "transform_node c b ob w = (ob', w1)"
    by (cases "transform_node c b ob w")
  have "P (snd (transform_node c b ob w))"
  proof (rule "2.IH"(1))
    show "P w" by (rule start)
    show "P (snd (visit_title c b t' w'))" if "P w'" for t' w' using that by (rule step)
  qed
  then have w1: "P w1" by (simp add: t)
  have "P (snd (transform_node c b pr w1))"
  proof (rule "2.IH"(2) [OF t [symmetric] refl])
    show "P w1" by (rule w1)
    show "P (snd (visit_title c b t' w'))" if "P w'" for t' w' using that by (rule step)
  qed
  then show ?case using t by (simp add: split_beta Let_def)
next
  case (3 c b q es w)
  then show ?case by (simp add: split_beta Let_def)
next
  case (4 c b ns w)
  then show ?case by (simp add: split_beta Let_def)
next
  case (9 c b n ns w)
  have step: "P (snd (visit_title c b t' w'))" if "P w'" for t' w'
    using that by (rule "9.prems"(1))
  note start = "9.prems"(2)
  obtain n' w1 where t: "transform_node c b n w = (n', w1)"
    by (cases "transform_node c b n w")
  have "P (snd (transform_node c b n w))"
  proof (rule "9.IH"(1))
    show "P w" by (rule start)
    show "P (snd (visit_title c b t' w'))" if "P w'" for t' w' using that by (rule step)
  qed
  then have w1: "P w1" by (simp add: t)
  have "P (snd (transform_nodes c b ns w1))"
  proof (rule "9.IH"(2) [OF t [symmetric] refl])
    show "P w1" by (rule w1)
    show "P (snd (visit_title c b t' w'))" if "P w'" for t' w' using that by (rule step)
  qed
  then show ?case using t by (simp add: split_beta Let_def)
qed simp_all

lemma transform_node_count:
  "length (history (snd (transform_node c b n w))) \<le> length (history w) + calls n"
  "length (history (snd (transform_nodes c b ns w))) \<le> length (history w) + calls_list ns"
proof (induction c b n w and c b ns w rule: transform_node_transform_nodes.induct)
  case (1 c b callee args w)
  show ?case
  proof (cases "isTest callee")
    case True
    show ?thesis
    proof (cases args)
      case Nil
      with True show ?thesis by simp
    next
      case (Cons firstArg rest)
      show ?thesis
      proof (cases "literal_title firstArg")
        case None
        with True Cons show ?thesis by simp
      next
        case (Some title)
        obtain ft w1 where v: "visit_title c b title w = (ft, w1)" by (cases "visit_title c b title w")
        have "length (history w1) \<le> Suc (length (history w))"
          using visit_title_count [of c b title w] by (simp add: v)
        moreover have "length (history (snd (transform_nodes c b rest w1)))
                         \<le> length (history w1) + calls_list rest"
          by (rule "1.IH"(1) [OF True Cons Some v [symmetric] refl refl])
        ultimately show ?thesis using True Cons Some v by (simp add: split_beta Let_def)
      qed
    qed
  next
    case False
    obtain callee' w1 where t: "transform_node c b callee w = (callee', w1)"
      by (cases "transform_node c b callee w")
    have "length (history w1) \<le> length (history w) + calls callee"
      using "1.IH"(2) [OF False] by (simp add: t)
    moreover have "length (history (snd (transform_nodes c b args w1)))
                     \<le> length (history w1) + calls_list args"
      by (rule "1.IH"(3) [OF False t [symmetric] refl])
    ultimately show ?thesis using False t by (simp add: split_beta Let_def)
  qed
next
  case (2 c b ob pr w)
  obtain ob' w1 where t: "transform_node c b ob w = (ob', w1)"
    by (cases "transform_node c b ob w")
  have "length (history w1) \<le> length (history w) + calls ob"
    using "2.IH"(1) by (simp add: t)
  moreover have "length (history (snd (transform_node c b pr w1))) \<le> length (history w1) + calls pr"
    by (rule "2.IH"(2) [OF t [symmetric] refl])
  ultimately show ?case using t by (simp add: split_beta Let_def)
next
  case (3 c b q es w)
  then show ?case by (simp add: split_beta Let_def)
next
  case (4 c b ns w)
  then show ?case by (simp add: split_beta Let_def)
next
  case (9 c b n ns w)
  obtain n' w1 where t: "transform_node c b n w = (n', w1)"
    by (cases "transform_node c b n w")
  have "length (history w1) \<le> length (history w) + calls n"
    using "9.IH"(1) by (simp add: t)
  moreover have "length (history (snd (transform_nodes c b ns w1))) \<le> length (history w1) + calls_list ns"
    by (rule "9.IH"(2) [OF t [symmetric] refl])
  ultimately show ?case using t by (simp add: split_beta Let_def)
qed simp_all

text \<open>
  The invariant holds from file to file: \<open>main\<close> hands to \<open>transformFile\<close> the number of the
  seed plus \<open>totalInc\<close>, which is the cursor the file before ended with.
\<close>

lemma transformFile_inv:
  assumes "run_inv (prefix c) (numberLength c) ks b0 b used h"
    and "transformFile c fl used b h = (ast', ch, used', inc, h')"
  shows "run_inv (prefix c) (numberLength c) ks b0 (b + inc) used' h'
       \<and> length h' \<le> length h + calls (snd fl)"
proof -
  let ?w = "\<lparr>usedIds = used, localInc = 0, fileChanged = False, history = h\<rparr>"
  let ?P = "\<lambda>w. run_inv (prefix c) (numberLength c) ks b0 (b + localInc w) (usedIds w) (history w)"
  have "?P (snd (transform_node c b (snd fl) ?w))"
  proof (rule transform_node_preserves(1) [where P = ?P])
    show "?P ?w" using assms(1) by simp
    show "?P (snd (visit_title c b t w))" if "?P w" for t w
      using that by (rule visit_title_inv)
  qed
  moreover have "length (history (snd (transform_node c b (snd fl) ?w))) \<le> length (history ?w) + calls (snd fl)"
    by (rule transform_node_count(1))
  moreover from assms(2) have "used' = usedIds (snd (transform_node c b (snd fl) ?w))"
    and "inc = localInc (snd (transform_node c b (snd fl) ?w))"
    and "h' = history (snd (transform_node c b (snd fl) ?w))"
    by (simp_all add: transformFile_def split_beta)
  ultimately show ?thesis by simp
qed

lemma transform_files_inv:
  assumes "run_inv (prefix c) (numberLength c) ks b0 (baseNumber c + t0) used h"
    and "transform_files c fs used t0 h = (fs', wr, used', tot, h')"
  shows "run_inv (prefix c) (numberLength c) ks b0 (baseNumber c + tot) used' h'
       \<and> length h' \<le> length h + calls_files fs"
  using assms
proof (induction fs arbitrary: used t0 h fs' wr used' tot h')
  case Nil
  then show ?case by (simp add: calls_files_def)
next
  case (Cons fl fs)
  obtain ast1 ch1 used1 inc1 h1 where tf: "transformFile c fl used (baseNumber c + t0) h = (ast1, ch1, used1, inc1, h1)"
    by (cases "transformFile c fl used (baseNumber c + t0) h") auto
  obtain rest' wr2 used2 total2 h2 where r: "transform_files c fs used1 (t0 + inc1) h1 = (rest', wr2, used2, total2, h2)"
    by (cases "transform_files c fs used1 (t0 + inc1) h1") auto
  from Cons.prems(2) have e: "used' = used2" "tot = total2" "h' = h2"
    by (simp_all add: tf r)
  note one = transformFile_inv [OF Cons.prems(1) tf]
  from one have i1: "run_inv (prefix c) (numberLength c) ks b0 (baseNumber c + (t0 + inc1)) used1 h1"
    by (simp add: add.assoc)
  note rest = Cons.IH [OF i1 r]
  from one rest show ?case unfolding e by (simp add: calls_files_def)
qed

text \<open>
  Consequences of the invariant: a search never starts below the number of the seed nor
  below the cursor an earlier allocation left; the cursor is at most the number of the
  seed plus the number of identifiers of the scan plus the number of allocations.
\<close>

lemma run_inv_first:
  assumes "run_inv p n ks b0 cur used h" and "i < length h"
  shows "b0 \<le> first_candidate (h ! i)"
  using assms(2)
proof (induction i)
  case 0
  with assms(1) show ?case unfolding run_inv_def by simp
next
  case (Suc i)
  then have i: "i < length h" by simp
  from assms(1) Suc.prems have "first_candidate (h ! Suc i) = cursor_after (h ! i)"
    unfolding run_inv_def by simp
  moreover from assms(1) i have "first_candidate (h ! i) < cursor_after (h ! i)"
    unfolding run_inv_def by blast
  ultimately show ?case using Suc.IH [OF i] by simp
qed

lemma run_inv_chain:
  assumes "run_inv p n ks b0 cur used h" and "j < length h" and "i < j"
  shows "cursor_after (h ! i) \<le> first_candidate (h ! j)"
  using assms(2,3)
proof (induction j)
  case 0
  then show ?case by simp
next
  case (Suc j)
  then have j: "j < length h" by simp
  from assms(1) Suc.prems have f: "first_candidate (h ! Suc j) = cursor_after (h ! j)"
    unfolding run_inv_def by simp
  show ?case
  proof (cases "i = j")
    case True
    with f show ?thesis by simp
  next
    case False
    with Suc.prems have "i < j" by simp
    from Suc.IH [OF j this] have "cursor_after (h ! i) \<le> first_candidate (h ! j)" .
    moreover from assms(1) j have "first_candidate (h ! j) < cursor_after (h ! j)"
      unfolding run_inv_def by blast
    ultimately show ?thesis using f by simp
  qed
qed

lemma run_inv_last:
  assumes "run_inv p n ks b0 cur used h" and "i < length h"
  shows "cursor_after (h ! i) \<le> cur"
proof -
  from assms(2) have ne: "h \<noteq> []" by auto
  with assms(1) have cur: "cur = cursor_after (h ! (length h - 1))"
    unfolding run_inv_def by (simp add: last_conv_nth)
  show ?thesis
  proof (cases "i = length h - 1")
    case True
    with cur show ?thesis by simp
  next
    case False
    with assms(2) have lt: "i < length h - 1" and l: "length h - 1 < length h" by simp_all
    from run_inv_chain [OF assms(1) l lt] have "cursor_after (h ! i) \<le> first_candidate (h ! (length h - 1))" .
    moreover from assms(1) l have "first_candidate (h ! (length h - 1)) < cursor_after (h ! (length h - 1))"
      unfolding run_inv_def by blast
    ultimately show ?thesis using cur by simp
  qed
qed

lemma run_inv_bound:
  assumes "run_inv p n ks b0 cur used h"
  shows "cur \<le> b0 + length ks + length h"
proof -
  from assms have used: "used = ks @ map allocated h"
    and range: "\<forall>k. b0 \<le> k \<and> k < cur \<longrightarrow> formatId p n k \<in> set used"
    unfolding run_inv_def by blast+
  have inj: "inj_on (formatId p n) (set [b0..<cur])"
    by (rule inj_onI) (rule formatId_inj)
  have "distinct (map (formatId p n) [b0..<cur])"
    using inj by (simp add: distinct_map)
  then have "card (set (map (formatId p n) [b0..<cur])) = length (map (formatId p n) [b0..<cur])"
    by (rule distinct_card)
  then have c: "card (set (map (formatId p n) [b0..<cur])) = cur - b0" by simp
  have "set (map (formatId p n) [b0..<cur]) \<subseteq> set used" using range by auto
  then have "card (set (map (formatId p n) [b0..<cur])) \<le> card (set used)"
    by (intro card_mono) simp_all
  also have "\<dots> \<le> length used" by (rule card_length)
  finally have "cur - b0 \<le> length ks + length h" using c used by simp
  then show ?thesis by simp
qed

text \<open>
  Claim C9. Take a run of add that completes: the seed is accepted, with prefix \<open>p\<close>,
  number \<open>b\<close> and width \<open>n\<close>; \<open>occs\<close> are the occurrences the scan finds; the loop over the
  files, started with the identifiers of the registry, ends with the files \<open>fs'\<close>, the
  used identifiers \<open>used'\<close>, \<open>totalInc = tot\<close> and the history \<open>h\<close> of its allocations, in
  order. Let the number of the seed, the number of occurrences and the number of call
  expressions of the files together be at most \<open>2 ^ 53\<close>. Then add returns these files,
  the used identifiers at the end are those of the scan followed by the allocated ones
  in the order of their allocation, and:
  \<^item> the cursor ends at \<open>b + tot\<close>, the value the last allocation left, which is at most
    \<open>2 ^ 53\<close>, so that every number of the run is exact;
  \<^item> the first allocation starts its search at \<open>b\<close> and every later one at the value the
    allocation before it left, whether in the same file or in an earlier one; every
    allocation leaves the cursor higher than it found it; so the cursor never moves
    backwards, across declarations and across files;
  \<^item> at every allocation the set of used identifiers holds every identifier of the scan,
    every identifier allocated before and all that it held at any earlier allocation,
    and does not hold the identifier that is allocated; at the end of the run it holds
    all of them;
  \<^item> so no allocation gives an identifier of the scan or one given before.
\<close>

theorem allocation_invariants:
  assumes "parseBaseId baseId = Inr (p, b, n)"
    and "c = \<lparr>prefix = p, baseNumber = b, numberLength = n, overwriteExistingIds = ow\<rparr>"
    and "occs = concat (map (parseTestIdsFromFile c) fs)"
    and "outcome (main_add baseId ow fs) = Completed"
    and "transform_files c fs (map fst (foldl register [] occs)) 0 [] = (fs', wr, used', tot, h)"
    and "b + length occs + calls_files fs \<le> 2 ^ 53"
  shows "main_add baseId ow fs = \<lparr>outcome = Completed, files_after = fs', written = wr\<rparr>
       \<and> used' = map fst (foldl register [] occs) @ map allocated h
       \<and> b + tot = (if h = [] then b else cursor_after (last h))
       \<and> b + tot \<le> 2 ^ 53
       \<and> (\<forall>j < length h.
             b \<le> first_candidate (h ! j)
             \<and> first_candidate (h ! j) = (if j = 0 then b else cursor_after (h ! (j - 1)))
             \<and> first_candidate (h ! j) < cursor_after (h ! j)
             \<and> cursor_after (h ! j) \<le> b + tot
             \<and> (\<forall>i < j. cursor_after (h ! i) \<le> first_candidate (h ! j)))
       \<and> (\<forall>j < length h.
             (\<forall>occ \<in> set occs. fst occ \<in> set (used_before (h ! j)))
             \<and> (\<forall>i < j. allocated (h ! i) \<in> set (used_before (h ! j))
                       \<and> set (used_before (h ! i)) \<subseteq> set (used_before (h ! j)))
             \<and> allocated (h ! j) \<notin> set (used_before (h ! j))
             \<and> set (used_before (h ! j)) \<subseteq> set used'
             \<and> allocated (h ! j) \<in> set used')
       \<and> (\<forall>occ \<in> set occs. fst occ \<in> set used')
       \<and> (\<forall>j < length h.
             (\<forall>occ \<in> set occs. allocated (h ! j) \<noteq> fst occ)
             \<and> (\<forall>i < j. allocated (h ! i) \<noteq> allocated (h ! j)))"
proof -
  define reg where "reg = foldl register [] occs"
  define ks where "ks = map fst reg"
  have reg: "reg = foldl register [] (concat (map (parseTestIdsFromFile c) fs))"
    by (simp add: reg_def assms(3))
  have keys: "set ks = fst ` set occs"
    unfolding ks_def reg_def registry_keys by simp
  have lks: "length ks \<le> length occs"
    unfolding ks_def reg_def using registry_length [of "[]" occs] by simp
  from main_add_Completed [OF assms(4) assms(1) assms(2) reg]
  have ne: "fs \<noteq> []" and nodup: "filter (\<lambda>(i, l). length l > 1) reg = []" by simp_all
  have T: "transform_files c fs ks 0 [] = (fs', wr, used', tot, h)"
    using assms(5) by (simp add: ks_def reg_def)
  have r1: "main_add baseId ow fs = \<lparr>outcome = Completed, files_after = fs', written = wr\<rparr>"
    using main_add_completed [OF assms(1) ne assms(2) reg nodup] T by (simp add: ks_def)
  have pc: "prefix c = p" "numberLength c = n" "baseNumber c = b" by (simp_all add: assms(2))
  have "run_inv (prefix c) (numberLength c) ks b (baseNumber c + 0) ks []"
    by (simp add: pc run_inv_initial)
  from transform_files_inv [OF this T]
  have inv: "run_inv p n ks b (b + tot) used' h" and count: "length h \<le> calls_files fs"
    by (simp_all add: pc)
  from inv have used: "used' = ks @ map allocated h"
    and cur: "b + tot = (if h = [] then b else cursor_after (last h))"
    and each: "\<forall>j < length h.
            first_candidate (h ! j) = (if j = 0 then b else cursor_after (h ! (j - 1)))
            \<and> first_candidate (h ! j) < cursor_after (h ! j)
            \<and> used_before (h ! j) = ks @ map allocated (take j h)
            \<and> allocated (h ! j) \<notin> set (used_before (h ! j))"
    unfolding run_inv_def by blast+
  have "b + tot \<le> b + length ks + length h" using inv by (rule run_inv_bound)
  with lks count assms(6) have r3: "b + tot \<le> 2 ^ 53" by linarith
  have r4: "\<forall>j < length h.
             b \<le> first_candidate (h ! j)
             \<and> first_candidate (h ! j) = (if j = 0 then b else cursor_after (h ! (j - 1)))
             \<and> first_candidate (h ! j) < cursor_after (h ! j)
             \<and> cursor_after (h ! j) \<le> b + tot
             \<and> (\<forall>i < j. cursor_after (h ! i) \<le> first_candidate (h ! j))"
  proof (intro allI impI conjI)
    fix j assume j: "j < length h"
    show "b \<le> first_candidate (h ! j)" using inv j by (rule run_inv_first)
    show "first_candidate (h ! j) = (if j = 0 then b else cursor_after (h ! (j - 1)))"
      using each j by blast
    show "first_candidate (h ! j) < cursor_after (h ! j)" using each j by blast
    show "cursor_after (h ! j) \<le> b + tot" using inv j by (rule run_inv_last)
    fix i assume "i < j"
    with inv j show "cursor_after (h ! i) \<le> first_candidate (h ! j)" by (rule run_inv_chain)
  qed
  have ub: "used_before (h ! j) = ks @ map allocated (take j h)" if "j < length h" for j
    using each that by blast
  have earlier: "allocated (h ! i) \<in> set (map allocated (take j h))" if "i < j" "j < length h" for i j
  proof -
    from that have "i < length (take j h)" by simp
    then have "take j h ! i \<in> set (take j h)" by (rule nth_mem)
    with that show ?thesis by simp
  qed
  have r5: "\<forall>j < length h.
             (\<forall>occ \<in> set occs. fst occ \<in> set (used_before (h ! j)))
             \<and> (\<forall>i < j. allocated (h ! i) \<in> set (used_before (h ! j))
                       \<and> set (used_before (h ! i)) \<subseteq> set (used_before (h ! j)))
             \<and> allocated (h ! j) \<notin> set (used_before (h ! j))
             \<and> set (used_before (h ! j)) \<subseteq> set used'
             \<and> allocated (h ! j) \<in> set used'"
  proof (intro allI impI conjI ballI)
    fix j assume j: "j < length h"
    show "allocated (h ! j) \<notin> set (used_before (h ! j))" using each j by blast
    show "set (used_before (h ! j)) \<subseteq> set used'"
      unfolding ub [OF j] used using set_take_subset [of j h] by auto
    show "allocated (h ! j) \<in> set used'" unfolding used using j by simp
    {
      fix occ assume "occ \<in> set occs"
      then show "fst occ \<in> set (used_before (h ! j))" unfolding ub [OF j] using keys by auto
    }
    {
      fix i assume ij: "i < j"
      then have i: "i < length h" using j by simp
      show "allocated (h ! i) \<in> set (used_before (h ! j))"
        unfolding ub [OF j] using earlier [OF ij j] by simp
      have "take i h = take i (take j h)" using ij by (simp add: min_def)
      then have "set (take i h) \<subseteq> set (take j h)" by (metis set_take_subset)
      then show "set (used_before (h ! i)) \<subseteq> set (used_before (h ! j))"
        unfolding ub [OF j] ub [OF i] by auto
    }
  qed
  have r6: "\<forall>occ \<in> set occs. fst occ \<in> set used'" unfolding used using keys by auto
  have r7: "\<forall>j < length h.
             (\<forall>occ \<in> set occs. allocated (h ! j) \<noteq> fst occ)
             \<and> (\<forall>i < j. allocated (h ! i) \<noteq> allocated (h ! j))"
  proof (intro allI impI conjI ballI)
    fix j assume j: "j < length h"
    from r5 j have fresh: "allocated (h ! j) \<notin> set (used_before (h ! j))" by blast
    {
      fix occ assume "occ \<in> set occs"
      with r5 j have "fst occ \<in> set (used_before (h ! j))" by blast
      with fresh show "allocated (h ! j) \<noteq> fst occ" by auto
    }
    {
      fix i assume "i < j"
      with r5 j have "allocated (h ! i) \<in> set (used_before (h ! j))" by blast
      with fresh show "allocated (h ! i) \<noteq> allocated (h ! j)" by auto
    }
  qed
  have r2: "used' = map fst (foldl register [] occs) @ map allocated h"
    using used by (simp add: ks_def reg_def)
  show ?thesis
    by (intro conjI) (rule r1, rule r2, rule cur, rule r3, rule r4, rule r5, rule r6, rule r7)
qed

text \<open>
  Two files: \<open>a.js\<close> with the titles \<open>x\<close> and \<open>T002: y\<close>, \<open>b.js\<close> with the title \<open>z\<close>. The
  scan finds \<open>T002\<close>; the run gives \<open>T001\<close> to \<open>x\<close> with the cursor going from 1 to 2, and
  in the second file \<open>T003\<close> to \<open>z\<close> with the cursor going from 2 to 4.
\<close>

theorem allocation_invariants_witness:
  "parseBaseId ''T001'' = Inr (''T'', 1, 3)
   \<and> outcome (main_add ''T001'' False
        [(''a.js'', Other [CallExpression (Identifier ''it'') [StringLiteral ''x''],
                           CallExpression (Identifier ''it'') [StringLiteral ''T002: y'']]),
         (''b.js'', Other [CallExpression (Identifier ''it'') [StringLiteral ''z'']])]) = Completed
   \<and> concat (map (parseTestIdsFromFile
          \<lparr>prefix = ''T'', baseNumber = 1, numberLength = 3, overwriteExistingIds = False\<rparr>)
        [(''a.js'', Other [CallExpression (Identifier ''it'') [StringLiteral ''x''],
                           CallExpression (Identifier ''it'') [StringLiteral ''T002: y'']]),
         (''b.js'', Other [CallExpression (Identifier ''it'') [StringLiteral ''z'']])])
      = [(''T002'', ''T002: y'', ''a.js'')]
   \<and> transform_files \<lparr>prefix = ''T'', baseNumber = 1, numberLength = 3, overwriteExistingIds = False\<rparr>
        [(''a.js'', Other [CallExpression (Identifier ''it'') [StringLiteral ''x''],
                           CallExpression (Identifier ''it'') [StringLiteral ''T002: y'']]),
         (''b.js'', Other [CallExpression (Identifier ''it'') [StringLiteral ''z'']])]
        (map fst (foldl register [] [(''T002'', ''T002: y'', ''a.js'')])) 0 []
      = ([(''a.js'', Other [CallExpression (Identifier ''it'') [StringLiteral ''T001: x''],
                            CallExpression (Identifier ''it'') [StringLiteral ''T002: y'']]),
          (''b.js'', Other [CallExpression (Identifier ''it'') [StringLiteral ''T003: z'']])],
         [''a.js'', ''b.js''], [''T002'', ''T001'', ''T003''], 3,
         [\<lparr>first_candidate = 1, used_before = [''T002''], allocated = ''T001'', cursor_after = 2\<rparr>,
          \<lparr>first_candidate = 2, used_before = [''T002'', ''T001''], allocated = ''T003'',
           cursor_after = 4\<rparr>])
   \<and> 1 + length [(''T002'', ''T002: y'', ''a.js'')]
       + calls_files
          [(''a.js'', Other [CallExpression (Identifier ''it'') [StringLiteral ''x''],
                             CallExpression (Identifier ''it'') [StringLiteral ''T002: y'']]),
           (''b.js'', Other [CallExpression (Identifier ''it'') [StringLiteral ''z'']])] \<le> (2::nat) ^ 53
   \<and> main_add ''T001'' False
        [(''a.js'', Other [CallExpression (Identifier ''it'') [StringLiteral ''x''],
                           CallExpression (Identifier ''it'') [StringLiteral ''T002: y'']]),
         (''b.js'', Other [CallExpression (Identifier ''it'') [StringLiteral ''z'']])]
      = \<lparr>outcome = Completed,
         files_after =
           [(''a.js'', Other [CallExpression (Identifier ''it'') [StringLiteral ''T001: x''],
                              CallExpression (Identifier ''it'') [StringLiteral ''T002: y'']]),
            (''b.js'', Other [CallExpression (Identifier ''it'') [StringLiteral ''T003: z'']])],
         written = [''a.js'', ''b.js'']\<rparr>
   \<and> (1::nat) + 3 \<le> 2 ^ 53
   \<and> cursor_after
         ([\<lparr>first_candidate = 1, used_before = [''T002''], allocated = ''T001'', cursor_after = 2\<rparr>,
           \<lparr>first_candidate = 2, used_before = [''T002'', ''T001''], allocated = ''T003'',
            cursor_after = (4::nat)\<rparr>] ! 0)
       \<le> first_candidate
           ([\<lparr>first_candidate = 1, used_before = [''T002''], allocated = ''T001'', cursor_after = 2\<rparr>,
           \<lparr>first_candidate = 2, used_before = [''T002'', ''T001''], allocated = ''T003'',
            cursor_after = (4::nat)\<rparr>] ! 1)"
proof -
  let ?c = "\<lparr>prefix = ''T'', baseNumber = 1, numberLength = 3, overwriteExistingIds = False\<rparr>"
  let ?fs = "[(''a.js'', Other [CallExpression (Identifier ''it'') [StringLiteral ''x''],
                           CallExpression (Identifier ''it'') [StringLiteral ''T002: y'']]),
         (''b.js'', Other [CallExpression (Identifier ''it'') [StringLiteral ''z'']])]"
  let ?occs = "[(''T002'', ''T002: y'', ''a.js'')]"
  have h1: "parseBaseId ''T001'' = Inr (''T'', 1, 3)" by code_simp
  have h3: "?occs = concat (map (parseTestIdsFromFile ?c) ?fs)" by code_simp
  have h4: "outcome (main_add ''T001'' False ?fs) = Completed" by code_simp
  have h5: "transform_files ?c ?fs (map fst (foldl register [] ?occs)) 0 []
      = ([(''a.js'', Other [CallExpression (Identifier ''it'') [StringLiteral ''T001: x''],
                            CallExpression (Identifier ''it'') [StringLiteral ''T002: y'']]),
          (''b.js'', Other [CallExpression (Identifier ''it'') [StringLiteral ''T003: z'']])],
         [''a.js'', ''b.js''], [''T002'', ''T001'', ''T003''], 3,
         [\<lparr>first_candidate = 1, used_before = [''T002''], allocated = ''T001'', cursor_after = 2\<rparr>,
          \<lparr>first_candidate = 2, used_before = [''T002'', ''T001''], allocated = ''T003'',
           cursor_after = 4\<rparr>])"
    by code_simp
  have cf: "calls_files ?fs = 3" by code_simp
  have h6: "1 + length ?occs + calls_files ?fs \<le> (2::nat) ^ 53" unfolding cf by simp
  note t = allocation_invariants [OF h1 refl h3 h4 h5 h6]
  from t have r1: "main_add ''T001'' False ?fs
      = \<lparr>outcome = Completed,
         files_after =
           [(''a.js'', Other [CallExpression (Identifier ''it'') [StringLiteral ''T001: x''],
                              CallExpression (Identifier ''it'') [StringLiteral ''T002: y'']]),
            (''b.js'', Other [CallExpression (Identifier ''it'') [StringLiteral ''T003: z'']])],
         written = [''a.js'', ''b.js'']\<rparr>" by (rule conjunct1)
  from t have r3: "(1::nat) + 3 \<le> 2 ^ 53" by blast
  let ?h = "[\<lparr>first_candidate = 1, used_before = [''T002''], allocated = ''T001'', cursor_after = 2\<rparr>,
           \<lparr>first_candidate = 2, used_before = [''T002'', ''T001''], allocated = ''T003'',
            cursor_after = (4::nat)\<rparr>]"
  have l: "(1::nat) < length ?h" and z: "(0::nat) < 1" by simp_all
  from t have "\<forall>j < length ?h. \<forall>i < j. cursor_after (?h ! i) \<le> first_candidate (?h ! j)"
    by blast
  with l z have r4: "cursor_after (?h ! 0) \<le> first_candidate (?h ! 1)" by blast
  show ?thesis
    by (intro conjI) (rule h1, rule h4, rule h3 [symmetric], rule h5, rule h6, rule r1, rule r3, rule r4)
qed

text \<open>
  When the scan finds no identifier, the identifiers allocated are, in the order of the
  allocations, those of the numbers \<open>b\<close>, \<open>b + 1\<close>, ... without a gap.
\<close>

lemma run_inv_consecutive:
  assumes "run_inv p n [] b0 cur used h" and "j < length h"
  shows "cursor_after (h ! j) = Suc (b0 + j) \<and> allocated (h ! j) = formatId p n (b0 + j)"
  using assms(2)
proof (induction j rule: less_induct)
  case (less j)
  from assms(1) have every: "\<forall>i < length h.
            first_candidate (h ! i) = (if i = 0 then b0 else cursor_after (h ! (i - 1)))
            \<and> first_candidate (h ! i) < cursor_after (h ! i)
            \<and> used_before (h ! i) = [] @ map allocated (take i h)
            \<and> allocated (h ! i) = formatId p n (cursor_after (h ! i) - 1)
            \<and> allocated (h ! i) \<notin> set (used_before (h ! i))
            \<and> (\<forall>k. first_candidate (h ! i) \<le> k \<and> k < cursor_after (h ! i) - 1
                   \<longrightarrow> formatId p n k \<in> set (used_before (h ! i)))"
    unfolding run_inv_def by blast
  from every less.prems
  have first: "first_candidate (h ! j) = (if j = 0 then b0 else cursor_after (h ! (j - 1)))"
    and lt: "first_candidate (h ! j) < cursor_after (h ! j)"
    and ub0: "used_before (h ! j) = [] @ map allocated (take j h)"
    and al: "allocated (h ! j) = formatId p n (cursor_after (h ! j) - 1)"
    and skipped: "\<forall>k. first_candidate (h ! j) \<le> k \<and> k < cursor_after (h ! j) - 1
                   \<longrightarrow> formatId p n k \<in> set (used_before (h ! j))"
    by blast+
  from ub0 have ub: "used_before (h ! j) = map allocated (take j h)" by simp
  have f: "first_candidate (h ! j) = b0 + j"
  proof (cases j)
    case 0
    with first show ?thesis by simp
  next
    case (Suc i)
    then have "i < j" and "i < length h" using less.prems by simp_all
    from less.IH [OF this] have "cursor_after (h ! i) = Suc (b0 + i)" by simp
    with first Suc show ?thesis by simp
  qed
  have "\<not> b0 + j < cursor_after (h ! j) - 1"
  proof
    assume "b0 + j < cursor_after (h ! j) - 1"
    with skipped f have "formatId p n (b0 + j) \<in> set (used_before (h ! j))" by simp
    then obtain e where e: "e \<in> set (take j h)" and eq: "formatId p n (b0 + j) = allocated e"
      unfolding ub by auto
    from e obtain i where i: "i < length (take j h)" and ei: "take j h ! i = e"
      unfolding in_set_conv_nth by blast
    from i have ij: "i < j" and il: "i < length h" by simp_all
    from less.IH [OF ij il] have "allocated (h ! i) = formatId p n (b0 + i)" by simp
    moreover from ei ij have "e = h ! i" by simp
    ultimately have "formatId p n (b0 + j) = formatId p n (b0 + i)" using eq by simp
    then have "b0 + j = b0 + i" by (rule formatId_inj)
    with ij show False by simp
  qed
  with lt f have "cursor_after (h ! j) = Suc (b0 + j)" by simp
  with al show ?case by simp
qed

lemma clean_run_consecutive:
  assumes "parseBaseId baseId = Inr (p, b, n)" and "fs \<noteq> []"
    and "c = \<lparr>prefix = p, baseNumber = b, numberLength = n, overwriteExistingIds = ow\<rparr>"
    and "concat (map (parseTestIdsFromFile c) fs) = []"
    and "transform_files c fs [] 0 [] = (fs', wr, used', tot, h)"
    and "b + calls_files fs \<le> 2 ^ 53"
  shows "main_add baseId ow fs = \<lparr>outcome = Completed, files_after = fs', written = wr\<rparr>
       \<and> map allocated h = map (formatId p n) [b..<b + length h]
       \<and> used' = map (formatId p n) [b..<b + length h]
       \<and> tot = length h
       \<and> b + tot \<le> 2 ^ 53"
proof -
  have reg: "[] = foldl register [] (concat (map (parseTestIdsFromFile c) fs))"
    by (simp add: assms(4))
  have r1: "main_add baseId ow fs = \<lparr>outcome = Completed, files_after = fs', written = wr\<rparr>"
    using main_add_completed [OF assms(1) assms(2) assms(3) reg] assms(5) by simp
  have pc: "prefix c = p" "numberLength c = n" "baseNumber c = b" by (simp_all add: assms(3))
  have "run_inv (prefix c) (numberLength c) [] b (baseNumber c + 0) [] []"
    by (simp add: pc run_inv_initial)
  from transform_files_inv [OF this assms(5)]
  have inv: "run_inv p n [] b (b + tot) used' h" and count: "length h \<le> calls_files fs"
    by (simp_all add: pc)
  have ids: "map allocated h = map (formatId p n) [b..<b + length h]"
  proof (rule nth_equalityI)
    show "length (map allocated h) = length (map (formatId p n) [b..<b + length h])" by simp
    fix j assume "j < length (map allocated h)"
    then have j: "j < length h" by simp
    from run_inv_consecutive [OF inv j] j
    show "map allocated h ! j = map (formatId p n) [b..<b + length h] ! j" by simp
  qed
  from inv have "used' = [] @ map allocated h"
    and cur: "b + tot = (if h = [] then b else cursor_after (last h))"
    unfolding run_inv_def by blast+
  then have used: "used' = map allocated h" by simp
  have tot: "tot = length h"
  proof (cases "h = []")
    case True
    with cur show ?thesis by simp
  next
    case False
    then have l: "length h - 1 < length h" by simp
    from run_inv_consecutive [OF inv l] have "cursor_after (last h) = Suc (b + (length h - 1))"
      using False by (simp add: last_conv_nth)
    with cur False show ?thesis by simp
  qed
  from count assms(6) tot have "b + tot \<le> 2 ^ 53" by simp
  with r1 ids used tot show ?thesis by simp
qed

text \<open>
  Claim C6 on the seed \<open>t-001\<close>: add stops at the seed with \<open>InvalidSeedFormat\<close>, leaves
  the file as it is and assigns nothing.
\<close>

theorem add_rejects_hyphen_seed:
  "main_add ''t-001'' False [(''a.js'', Other [CallExpression (Identifier ''it'') [StringLiteral ''logs in'']])]
     = \<lparr>outcome = Failed InvalidSeedFormat,
        files_after = [(''a.js'', Other [CallExpression (Identifier ''it'') [StringLiteral ''logs in'']])],
        written = []\<rparr>"
  by code_simp


section \<open>The missing identifiers of compare\<close>

text \<open>
  \<open>compareIds\<close> gives, for the base number it is called with, the numbers from that base
  to the greatest number found that are not among the numbers found, and nothing when no
  identifier was found.
\<close>

lemma last_sort_Max:
  fixes xs :: "nat list"
  assumes "xs \<noteq> []"
  shows "last (sort xs) = Max (set xs)"
proof -
  have ne: "sort xs \<noteq> []" using assms by (metis length_sort length_0_conv)
  have "last (sort xs) \<in> set (sort xs)" using ne by (rule last_in_set)
  then have mem: "last (sort xs) \<in> set xs" by simp
  have "y \<le> last (sort xs)" if "y \<in> set xs" for y
  proof -
    from that have "y \<in> set (sort xs)" by simp
    then obtain i where i: "i < length (sort xs)" and y: "sort xs ! i = y"
      unfolding in_set_conv_nth by blast
    have "sort xs ! i \<le> sort xs ! (length (sort xs) - 1)"
      using i by (intro sorted_nth_mono) simp_all
    then show ?thesis using y ne by (simp add: last_conv_nth)
  qed
  with mem show ?thesis by (intro Max_eqI [symmetric]) simp_all
qed

lemma compareIds_missing:
  "fst (compareIds idObjects base) =
     (if idObjects = [] then []
      else filter (\<lambda>i. i \<notin> fst ` set idObjects) [base..<Suc (Max (fst ` set idObjects))])"
proof (cases "idObjects = []")
  case True
  then show ?thesis by (simp add: compareIds_def)
next
  case False
  then have ne: "remdups (map fst idObjects) \<noteq> []" by simp
  then have s: "sort (remdups (map fst idObjects)) \<noteq> []" by (metis length_sort length_0_conv)
  have "last (sort (remdups (map fst idObjects))) = Max (fst ` set idObjects)"
    using last_sort_Max [OF ne] by simp
  with False s show ?thesis by (simp add: compareIds_def Let_def)
qed


section \<open>Identifiers and the width of the seed\<close>

text \<open>
  A title that add has written is recognised by the matcher of add and of \<open>cleanFile\<close>
  exactly when its number has no more digits than the width. Such a title is skipped by
  a later run without overwrite, and \<open>cleanFile\<close> takes it back to the trimmed title.
\<close>

lemma is_digit_digit_char: "d < 10 \<Longrightarrow> is_digit (digit_char d)"
  by (simp add: is_digit_def digit_char_def)

lemma toString_digits: "c \<in> set (toString k) \<Longrightarrow> is_digit c"
proof (induction k arbitrary: c rule: toString.induct)
  case (1 n)
  show ?case
  proof (cases "n < 10")
    case True
    with "1.prems" show ?thesis by (simp add: toString.simps [of n] is_digit_digit_char)
  next
    case False
    with "1.prems" have "c \<in> set (toString (n div 10)) \<or> c = digit_char (n mod 10)"
      by (auto simp add: toString.simps [of n])
    then show ?thesis using "1.IH" [OF False] is_digit_digit_char [of "n mod 10"] by auto
  qed
qed

lemma toString_nonempty: "toString k \<noteq> []"
  by (simp add: toString.simps [of k])

lemma length_toString: "0 < n \<Longrightarrow> length (toString k) \<le> n \<longleftrightarrow> k < 10 ^ n"
proof (induction k arbitrary: n rule: toString.induct)
  case (1 k)
  show ?case
  proof (cases "k < 10")
    case True
    have "(10::nat) ^ 1 \<le> 10 ^ n" using "1.prems" by (intro power_increasing) simp_all
    with True "1.prems" show ?thesis by (simp add: toString.simps [of k])
  next
    case False
    show ?thesis
    proof (cases "n = 1")
      case True
      with False show ?thesis by (simp add: toString.simps [of k] toString_nonempty)
    next
      case n: False
      with "1.prems" obtain m where m: "n = Suc m" "0 < m" by (cases n) auto
      have "length (toString (k div 10)) \<le> m \<longleftrightarrow> k div 10 < 10 ^ m"
        by (rule "1.IH" [OF False m(2)])
      moreover have "k div 10 < 10 ^ m \<longleftrightarrow> k < 10 ^ n"
        unfolding m(1) by (simp add: div_less_iff_less_mult mult.commute)
      ultimately show ?thesis using False by (simp add: toString.simps [of k] m(1))
    qed
  qed
qed

lemma takeWhile_digits_colon:
  assumes "\<forall>c \<in> set ds. is_digit c"
  shows "takeWhile is_digit (ds @ CHR '':'' # x) = ds"
  using assms colon_not_digit by (simp add: takeWhile_append2)

lemma assigned_title_matches_iff:
  assumes "0 < n"
  shows "begins_with_id p n (formatId p n k @ '': '' @ x) \<longleftrightarrow> k < 10 ^ n"
proof -
  define ds where "ds = padStart n CHR ''0'' (toString k)"
  have zero: "is_digit CHR ''0''" by (simp add: is_digit_def)
  have digits: "\<forall>c \<in> set ds. is_digit c"
    unfolding ds_def padStart_def using toString_digits zero by auto
  have len: "length ds = n \<longleftrightarrow> k < 10 ^ n"
    unfolding ds_def padStart_def using length_toString [OF assms, of k] by auto
  have t: "formatId p n k @ '': '' @ x = p @ ds @ CHR '':'' # CHR '' '' # x"
    by (simp add: formatId_def ds_def)
  have tw: "takeWhile is_digit (ds @ CHR '':'' # CHR '' '' # x) = ds"
    using digits by (rule takeWhile_digits_colon)
  show ?thesis
    unfolding t begins_with_id_def using len by (auto simp add: tw Let_def)
qed

lemma dropWhile_trim: "dropWhile is_space (trim x) = trim x"
proof (cases "trim x")
  case Nil
  then show ?thesis by simp
next
  case (Cons a as)
  define y where "y = dropWhile is_space x"
  have tr: "trim x = rev (dropWhile is_space (rev y))" by (simp add: trim_def y_def)
  have "y \<noteq> []" using Cons tr by auto
  then have hy: "\<not> is_space (hd y)" unfolding y_def by (rule hd_dropWhile)
  have "rev y = takeWhile is_space (rev y) @ dropWhile is_space (rev y)" by simp
  then have "y = trim x @ rev (takeWhile is_space (rev y))"
    unfolding tr by (metis rev_append rev_rev_ident)
  then have "y = (a # as) @ rev (takeWhile is_space (rev y))" by (simp only: Cons)
  then have "hd y = a" by (metis append_Cons list.sel(1))
  with hy Cons show ?thesis by simp
qed

lemma trim_trim: "trim (trim x) = trim x"
proof -
  have "rev (trim x) = dropWhile is_space (rev (dropWhile is_space x))" by (simp add: trim_def)
  then have "dropWhile is_space (rev (trim x)) = rev (trim x)" by simp
  then show ?thesis unfolding trim_def [of "trim x"] dropWhile_trim by simp
qed

lemma assigned_title_round_trip:
  assumes "0 < n" and "k < 10 ^ n"
  shows "trim (replace_match (rmatch (idRegex p n) False (formatId p n k @ '': '' @ trim x))
                             (formatId p n k @ '': '' @ trim x)) = trim x"
proof -
  define ds where "ds = padStart n CHR ''0'' (toString k)"
  have m: "begins_with_id p n (formatId p n k @ '': '' @ trim x)"
    using assigned_title_matches_iff [OF assms(1)] assms(2) by simp
  have "length ds = n"
    unfolding ds_def padStart_def using length_toString [OF assms(1), of k] assms(2) by auto
  then have "drop (length p + n + 1) (formatId p n k @ '': '' @ trim x) = CHR '' '' # trim x"
    by (simp add: formatId_def ds_def [symmetric])
  moreover have "is_space CHR '' ''" by (simp add: is_space_def)
  ultimately show ?thesis
    using m by (simp add: replace_idRegex dropWhile_trim trim_trim)
qed

lemma assigned_title_skipped:
  assumes "0 < numberLength c" and "k < 10 ^ numberLength c" and "\<not> overwriteExistingIds c"
  shows "visit_title c b (formatId (prefix c) (numberLength c) k @ '': '' @ x) w = (None, w)"
  using assigned_title_matches_iff [OF assms(1), of "prefix c" k x] assms(2,3)
  by (simp add: visit_title_def rmatch_idRegex)


section \<open>Runs on concrete files\<close>

text \<open>
  Claim C1 on the standalone script. One file holds two declarations with the identifier
  \<open>0003\<close> and a third without any. The script reports \<open>0003\<close> with both titles, goes on,
  gives the third declaration \<open>0001\<close> and writes the file.
\<close>

theorem script_rewrites_despite_duplicates:
  "main_index ''0001'' False
     [(''a.js'', Other [CallExpression (Identifier ''it'') [StringLiteral ''0003: x''],
                        CallExpression (Identifier ''it'') [StringLiteral ''0003: y''],
                        CallExpression (Identifier ''it'') [StringLiteral ''z'']])]
   = ([(''0003'', [(''a.js'', ''0003: x''), (''a.js'', ''0003: y'')])],
      \<lparr>outcome = Completed,
       files_after =
         [(''a.js'', Other [CallExpression (Identifier ''it'') [StringLiteral ''0003: x''],
                            CallExpression (Identifier ''it'') [StringLiteral ''0003: y''],
                            CallExpression (Identifier ''it'') [StringLiteral ''0001: z'']])],
       written = [''a.js'']\<rparr>)"
  by code_simp

text \<open>
  Claim C2 on the seed \<open>e2e-005\<close> and the identifiers \<open>e2e-005\<close> and \<open>e2e-007\<close>: compare
  reports as missing every number from 1 that is absent, not only \<open>e2e-006\<close>.
\<close>

theorem compare_counts_from_one:
  "main_compare ''e2e-005''
     [(''a.js'', Other [CallExpression (Identifier ''it'') [StringLiteral ''e2e-005: a''],
                        CallExpression (Identifier ''it'') [StringLiteral ''e2e-007: b'']])]
   = Inr (Some \<lparr>total = 2, duplicateIds = [],
                 missingIds = [''e2e-001'', ''e2e-002'', ''e2e-003'', ''e2e-004'', ''e2e-006'']\<rparr>)"
  by code_simp

text \<open>
  Claim C3 on a title written as a template literal without expressions: compare counts
  no identifier and the first clean command leaves the file as it is; the same title as a
  string literal is counted, and \<open>cleanFile\<close> does strip the template literal. A template
  literal has no field \<open>value\<close>, so the visitor returns at \<open>!firstArg.value\<close> before it
  reads the title.
\<close>

theorem template_title_not_reached:
  "main_compare ''e2e-001''
     [(''a.js'', Other [CallExpression (Identifier ''it'') [TemplateLiteral ''e2e-001: login'' []]])]
   = Inr (Some \<lparr>total = 0, duplicateIds = [], missingIds = []\<rparr>)
   \<and> main_clean_prefix ''e2e-001''
     [(''a.js'', Other [CallExpression (Identifier ''it'') [TemplateLiteral ''e2e-001: login'' []]])]
   = \<lparr>outcome = Completed,
      files_after = [(''a.js'', Other [CallExpression (Identifier ''it'') [TemplateLiteral ''e2e-001: login'' []]])],
      written = []\<rparr>
   \<and> main_compare ''e2e-001''
     [(''a.js'', Other [CallExpression (Identifier ''it'') [StringLiteral ''e2e-001: login'']])]
   = Inr (Some \<lparr>total = 1, duplicateIds = [], missingIds = []\<rparr>)
   \<and> main_clean ''T001''
     [(''a.js'', Other [CallExpression (Identifier ''it'') [TemplateLiteral ''T001: login'' []]])]
   = \<lparr>outcome = Completed,
      files_after = [(''a.js'', Other [CallExpression (Identifier ''it'') [StringLiteral ''login'']])],
      written = [''a.js'']\<rparr>"
  by code_simp

text \<open>
  Claim C7 on the seed \<open>T9\<close>, of width 1, and two declarations: the first run assigns
  \<open>T9\<close> and \<open>T10\<close>; the second run does not recognise \<open>T10\<close>, of two digits, rewrites its
  title to \<open>T10: T10: b\<close> and writes the file.
\<close>

theorem second_add_rewrites_wide_identifier:
  "main_add ''T9'' False
     [(''a.js'', Other [CallExpression (Identifier ''it'') [StringLiteral ''a''],
                        CallExpression (Identifier ''it'') [StringLiteral ''b'']])]
   = \<lparr>outcome = Completed,
      files_after = [(''a.js'', Other [CallExpression (Identifier ''it'') [StringLiteral ''T9: a''],
                                      CallExpression (Identifier ''it'') [StringLiteral ''T10: b'']])],
      written = [''a.js'']\<rparr>
   \<and> main_add ''T9'' False
     [(''a.js'', Other [CallExpression (Identifier ''it'') [StringLiteral ''T9: a''],
                        CallExpression (Identifier ''it'') [StringLiteral ''T10: b'']])]
   = \<lparr>outcome = Completed,
      files_after = [(''a.js'', Other [CallExpression (Identifier ''it'') [StringLiteral ''T9: a''],
                                      CallExpression (Identifier ''it'') [StringLiteral ''T10: T10: b'']])],
      written = [''a.js'']\<rparr>"
  by code_simp

text \<open>
  Claim C8 on the same files: after add, clean with the same seed restores the title \<open>a\<close>
  and leaves the title \<open>T10: b\<close>.
\<close>

theorem clean_keeps_wide_identifier:
  "main_clean ''T9''
     (files_after (main_add ''T9'' False
        [(''a.js'', Other [CallExpression (Identifier ''it'') [StringLiteral ''a''],
                           CallExpression (Identifier ''it'') [StringLiteral ''b'']])]))
   = \<lparr>outcome = Completed,
      files_after = [(''a.js'', Other [CallExpression (Identifier ''it'') [StringLiteral ''a''],
                                      CallExpression (Identifier ''it'') [StringLiteral ''T10: b'']])],
      written = [''a.js'']\<rparr>"
  by code_simp

end
